theory Spec2Isabelle
  imports Main
begin

section \<open>Common conventions\<close>

text \<open>
  \<open>ColorVal\<close> and \<open>PropertyVal\<close> are the C++ type \<open>int\<close>, of 32 bits. A value of this
  type is modelled as an integer, and the arithmetic of the colour transform is modelled
  with its overflow: a result outside \<open>[-2^31, 2^31 - 1]\<close> wraps around, as it does in the
  compiled two's complement code. Wrapping commutes with sums, differences and products,
  so an expression made of these is wrapped once, where its value is shifted, divided,
  compared or returned. The code of the context tree only copies and compares such
  values, apart from \<open>oldmax - 1\<close>, taken where \<open>oldmin < oldmax\<close>, and \<open>splitval + 1\<close>,
  which is at most \<open>oldmax\<close> when the coder returns a value of the interval it was asked
  for. The two narrow fields of a tree node (\<open>int8_t\<close>, \<open>int16_t\<close>) have their
  conversions written out with the tree.

  A failed \<open>assert\<close> and an access outside a vector are outcomes of their own.
\<close>

type_synonym ColorVal = int

datatype error = AssertionFailed | OutOfBounds

text \<open>The value that a 32-bit \<open>int\<close> holds for the mathematical result \<open>x\<close>.\<close>

definition int32_t :: "int \<Rightarrow> int" where
  "int32_t x = (x + 2147483648) mod 4294967296 - 2147483648"

text \<open>The operator \<open>x >> n\<close> on a signed value: the arithmetic shift, rounding down.\<close>

definition shr :: "int \<Rightarrow> nat \<Rightarrow> int" where
  "shr x n = x div 2 ^ n"

text \<open>The operator \<open>a / b\<close> of C++ on signed values: the quotient truncated towards zero.\<close>

definition cdiv :: "int \<Rightarrow> int \<Rightarrow> int" where
  "cdiv a b = sgn a * sgn b * (\<bar>a\<bar> div \<bar>b\<bar>)"

text \<open>The function \<open>abs\<close> on an \<open>int\<close>.\<close>

definition abs32 :: "int \<Rightarrow> int" where
  "abs32 x = int32_t \<bar>x\<bar>"

section \<open>The YCoCg transform (transform/ycocg.hpp)\<close>

subsection \<open>Dependent ranges\<close>

definition get_min_y :: "int \<Rightarrow> ColorVal" where
  "get_min_y par = 0"

definition get_max_y :: "int \<Rightarrow> ColorVal" where
  "get_max_y par = int32_t (par * 4 - 1)"

definition get_min_co :: "int \<Rightarrow> ColorVal \<Rightarrow> error + ColorVal" where
  "get_min_co par y =
     (if \<not> y \<ge> get_min_y par then Inl AssertionFailed
      else if \<not> y \<le> get_max_y par then Inl AssertionFailed
      else if y < int32_t (par - 1) then Inr (int32_t (- 4 - 4 * y))
      else if y \<ge> int32_t (3 * par) then Inr (int32_t (3 + 4 * (y - 4 * par)))
      else Inr (int32_t (- 4 * par)))"

definition get_max_co :: "int \<Rightarrow> ColorVal \<Rightarrow> error + ColorVal" where
  "get_max_co par y =
     (if \<not> y \<ge> get_min_y par then Inl AssertionFailed
      else if \<not> y \<le> get_max_y par then Inl AssertionFailed
      else if y < int32_t (par - 1) then Inr (int32_t (2 + 4 * y))
      else if y \<ge> int32_t (3 * par) then Inr (int32_t (4 * par - 5 - 4 * (y - 3 * par)))
      else Inr (int32_t (4 * par - 2)))"

definition get_min_cg :: "int \<Rightarrow> ColorVal \<Rightarrow> ColorVal \<Rightarrow> error + ColorVal" where
  "get_min_cg par y co =
     (if \<not> y \<ge> get_min_y par then Inl AssertionFailed
      else if \<not> y \<le> get_max_y par then Inl AssertionFailed
      else case get_min_co par y of Inl e \<Rightarrow> Inl e | Inr lo \<Rightarrow>
        if co < lo then Inr (int32_t (8 * par))
        else case get_max_co par y of Inl e \<Rightarrow> Inl e | Inr hi \<Rightarrow>
          if co > hi then Inr (int32_t (8 * par))
          else if y < int32_t (par - 1)
            then Inr (int32_t (- 2 - 2 * y + cdiv (abs32 (int32_t (co + 1))) 2 * 2))
          else if y \<ge> int32_t (3 * par) then Inr (int32_t (- 1 - 2 * (4 * par - 1 - y)))
          else Inr (max (int32_t (- 4 * par + 1 + (y - 2 * par) * 2))
                        (int32_t (- 2 * par - (y - par + 1) * 2
                                  + cdiv (abs32 (int32_t (co + 1))) 2 * 2))))"

definition get_max_cg :: "int \<Rightarrow> ColorVal \<Rightarrow> ColorVal \<Rightarrow> error + ColorVal" where
  "get_max_cg par y co =
     (if \<not> y \<ge> get_min_y par then Inl AssertionFailed
      else if \<not> y \<le> get_max_y par then Inl AssertionFailed
      else case get_min_co par y of Inl e \<Rightarrow> Inl e | Inr lo \<Rightarrow>
        if co < lo then Inr (int32_t (- 8 * par))
        else case get_max_co par y of Inl e \<Rightarrow> Inl e | Inr hi \<Rightarrow>
          if co > hi then Inr (int32_t (- 8 * par))
          else if y < int32_t (par - 1) then Inr (int32_t (2 * y))
          else if y \<ge> int32_t (3 * par)
            then Inr (int32_t (- 1 + 2 * (4 * par - 1 - y)
                               - cdiv (int32_t (1 + abs32 (int32_t (co + 1)))) 2 * 2))
          else Inr (min (int32_t (2 * par - 2 + (y - par + 1) * 2))
                        (int32_t (2 * par - 1 + (3 * par - 1 - y) * 2
                                  - cdiv (int32_t (1 + abs32 (int32_t (co + 1)))) 2 * 2))))"

subsection \<open>Colour ranges\<close>

text \<open>
  The abstract class \<open>ColorRanges\<close> is seen through \<open>numPlanes()\<close>, \<open>min(p)\<close> and \<open>max(p)\<close>:
  a list with one pair \<open>(min, max)\<close> per plane, whose length is \<open>numPlanes()\<close>.
\<close>

type_synonym ColorRanges = "(ColorVal \<times> ColorVal) list"

definition numPlanes :: "ColorRanges \<Rightarrow> nat" where
  "numPlanes r = length r"

definition range_min :: "ColorRanges \<Rightarrow> nat \<Rightarrow> ColorVal" where
  "range_min r p = fst (r ! p)"

definition range_max :: "ColorRanges \<Rightarrow> nat \<Rightarrow> ColorVal" where
  "range_max r p = snd (r ! p)"

text \<open>Class \<open>ColorRangesYCoCg\<close>: the parameter and the wrapped ranges.\<close>

record ColorRangesYCoCg =
  cr_par :: int
  cr_ranges :: ColorRanges

definition ColorRangesYCoCg_min :: "ColorRangesYCoCg \<Rightarrow> nat \<Rightarrow> error + ColorVal" where
  "ColorRangesYCoCg_min cr p =
     (if p = 0 then Inr 0
      else if p = 1 then Inr (int32_t (- 4 * cr_par cr))
      else if p = 2 then Inr (int32_t (- 4 * cr_par cr))
      else if p < numPlanes (cr_ranges cr) then Inr (range_min (cr_ranges cr) p)
      else Inl OutOfBounds)"

definition ColorRangesYCoCg_max :: "ColorRangesYCoCg \<Rightarrow> nat \<Rightarrow> error + ColorVal" where
  "ColorRangesYCoCg_max cr p =
     (if p = 0 then Inr (int32_t (4 * cr_par cr - 1))
      else if p = 1 then Inr (int32_t (4 * cr_par cr - 2))
      else if p = 2 then Inr (int32_t (4 * cr_par cr - 2))
      else if p < numPlanes (cr_ranges cr) then Inr (range_max (cr_ranges cr) p)
      else Inl OutOfBounds)"

subsection \<open>The transform\<close>

text \<open>Class \<open>TransformYCoCg\<close>: the members \<open>par\<close> and \<open>ranges\<close>.\<close>

record TransformYCoCg =
  par :: int
  ranges :: ColorRanges

text \<open>
  \<open>init\<close> returns its boolean together with the object as it leaves it: the members
  are assigned on the accepting path only. For a maximum of the type \<open>int\<close> the
  quotient \<open>max / 4\<close> is below \<open>2^29\<close>, so \<open>max / 4 + 1\<close> does not overflow.
\<close>

definition init :: "TransformYCoCg \<Rightarrow> ColorRanges \<Rightarrow> bool \<times> TransformYCoCg" where
  "init t srcRanges =
     (if numPlanes srcRanges < 3 then (False, t)
      else if range_min srcRanges 0 < 0 \<or> range_min srcRanges 1 < 0 \<or> range_min srcRanges 2 < 0
        then (False, t)
      else if range_min srcRanges 0 = range_max srcRanges 0
            \<or> range_min srcRanges 1 = range_max srcRanges 1
            \<or> range_min srcRanges 2 = range_max srcRanges 2
        then (False, t)
      else let m = max (max (range_max srcRanges 0) (range_max srcRanges 1)) (range_max srcRanges 2)
           in (True, t\<lparr>par := cdiv m 4 + 1, ranges := srcRanges\<rparr>))"

definition meta :: "TransformYCoCg \<Rightarrow> ColorRanges \<Rightarrow> ColorRangesYCoCg" where
  "meta t srcRanges = \<lparr>cr_par = par t, cr_ranges = srcRanges\<rparr>"

text \<open>
  The body of the pixel loops of \<open>data\<close> and \<open>invData\<close>, on the values of planes 0, 1
  and 2 at one position. An image is seen as the list of these triples; how the class
  \<open>Image\<close> stores a plane (\<open>undo_make_constant_plane\<close>) is left out.
\<close>

type_synonym pixel = "ColorVal \<times> ColorVal \<times> ColorVal"

definition data_px :: "pixel \<Rightarrow> pixel" where
  "data_px px =
     (case px of (R, G, B) \<Rightarrow>
        let Y = shr (int32_t (shr (int32_t (R + B)) 1 + G)) 1;
            Co = int32_t ((R - B) - 1);
            Cg = int32_t ((shr (int32_t (R + B)) 1 - G) - 1)
        in (Y, Co, Cg))"

text \<open>The macro \<open>clip(x,l,u)\<close>, as the value \<open>x\<close> holds after it.\<close>

definition clip :: "int \<Rightarrow> int \<Rightarrow> int \<Rightarrow> int" where
  "clip x l u = (if x < l then l else if x > u then u else x)"

definition invData_px :: "TransformYCoCg \<Rightarrow> pixel \<Rightarrow> pixel" where
  "invData_px t px =
     (case px of (Y, Co, Cg) \<Rightarrow>
        let R = int32_t (Y + shr (int32_t (Cg + 2)) 1 + shr (int32_t (Co + 2)) 1);
            G = int32_t (Y - shr (int32_t (Cg + 1)) 1);
            B = int32_t (Y + shr (int32_t (Cg + 2)) 1 - shr (int32_t (Co + 1)) 1)
        in (clip R 0 (range_max (ranges t) 0),
            clip G 0 (range_max (ranges t) 1),
            clip B 0 (range_max (ranges t) 2)))"

definition data :: "pixel list list \<Rightarrow> pixel list list" where
  "data images = map (map data_px) images"

definition invData :: "TransformYCoCg \<Rightarrow> pixel list list \<Rightarrow> pixel list list" where
  "invData t images = map (map (invData_px t)) images"

section \<open>The MANIAC context tree (maniac/compound.hpp)\<close>

subsection \<open>Data\<close>

type_synonym PropertyVal = ColorVal
type_synonym Ranges = "(PropertyVal \<times> PropertyVal) list"
type_synonym Properties = "PropertyVal list"

text \<open>
  The conversions to \<open>int8_t\<close> and \<open>int16_t\<close> that the assignments to the fields
  \<open>property\<close> and \<open>count\<close> perform.
\<close>

definition int8_t :: "int \<Rightarrow> int" where
  "int8_t x = (x + 128) mod 256 - 128"

definition int16_t :: "int \<Rightarrow> int" where
  "int16_t x = (x + 32768) mod 65536 - 32768"

text \<open>
  Class \<open>PropertyDecisionNode\<close>. The indices \<open>childID\<close> and \<open>leafID\<close> are positions in
  two vectors and are kept as natural numbers.
\<close>

record PropertyDecisionNode =
  property :: int
  count :: int
  splitval :: PropertyVal
  childID :: nat
  leafID :: nat

text \<open>The constructor with its default arguments, \<open>PropertyDecisionNode()\<close>.\<close>

definition PropertyDecisionNode_default :: PropertyDecisionNode where
  "PropertyDecisionNode_default =
     \<lparr>property = - 1, count = 0, splitval = 0, childID = 0, leafID = 0\<rparr>"

type_synonym Tree = "PropertyDecisionNode list"

text \<open>The constructor \<open>Tree()\<close>: one default node.\<close>

definition Tree_new :: Tree where
  "Tree_new = [PropertyDecisionNode_default]"

subsection \<open>FinalCompoundSymbolCoder\<close>

text \<open>
  A \<open>FinalCompoundSymbolBitCoder\<close> refers to the range coder and to the chances of one
  leaf: the pair of the state of the RAC and of these chances. What the classes \<open>RAC\<close>
  and \<open>SymbolChance\<close> hold is left open (the type variables \<open>'r\<close> and \<open>'ch\<close>).
\<close>

type_synonym ('r, 'ch) bitCoder = "'r \<times> 'ch"

text \<open>
  Modelled from the spec: the function template \<open>reader<bits>(coder, min, max)\<close> is
  defined in \<open>symbol.hpp\<close>, a file that is not modelled here. The specification of
  \<open>read_int(chances, min, max)\<close> says that it decodes an integer in \<open>[min, max]\<close> bit by bit
  through the bit coder, and: "If \<open>min == max\<close>, returns immediately without touching the
  bitstream." The decoding of the other case is the parameter \<open>decode\<close>.
\<close>

definition reader ::
  "(('r, 'ch) bitCoder \<Rightarrow> int \<Rightarrow> int \<Rightarrow> int \<times> ('r, 'ch) bitCoder)
    \<Rightarrow> ('r, 'ch) bitCoder \<Rightarrow> int \<Rightarrow> int \<Rightarrow> int \<times> ('r, 'ch) bitCoder" where
  "reader decode bitCoder minv maxv =
     (if minv = maxv then (minv, bitCoder) else decode bitCoder minv maxv)"

text \<open>
  \<open>FinalCompoundSymbolCoder::read_int(chancesIn, min, max)\<close> and
  \<open>read_int(chancesIn, nbits)\<close>. The fixed-width \<open>reader(coder, nbits)\<close> of \<open>symbol.hpp\<close>
  is the parameter \<open>decode_bits\<close>.
\<close>

definition FinalCompoundSymbolCoder_read_int ::
  "(('r, 'ch) bitCoder \<Rightarrow> int \<Rightarrow> int \<Rightarrow> int \<times> ('r, 'ch) bitCoder)
    \<Rightarrow> 'r \<Rightarrow> 'ch \<Rightarrow> int \<Rightarrow> int \<Rightarrow> int \<times> ('r, 'ch) bitCoder" where
  "FinalCompoundSymbolCoder_read_int decode rac_state chancesIn minv maxv =
     (let bitCoder = (rac_state, chancesIn);
          val = reader decode bitCoder minv maxv
      in val)"

definition FinalCompoundSymbolCoder_read_int_nbits ::
  "(('r, 'ch) bitCoder \<Rightarrow> int \<Rightarrow> int \<times> ('r, 'ch) bitCoder)
    \<Rightarrow> 'r \<Rightarrow> 'ch \<Rightarrow> int \<Rightarrow> int \<times> ('r, 'ch) bitCoder" where
  "FinalCompoundSymbolCoder_read_int_nbits decode_bits rac_state chancesIn nbits =
     (let bitCoder = (rac_state, chancesIn);
          val = decode_bits bitCoder nbits
      in val)"

subsection \<open>FinalPropertySymbolCoder\<close>

text \<open>
  The loop of \<open>find_leaf\<close>, from a position \<open>pos\<close>, on the leaf store and the tree. It
  returns the index in the leaf store of the leaf whose reference the source returns, with
  the leaf store and the tree as the call leaves them. A walk that never ends has no
  result (\<open>None\<close>). In the two branches that decrement \<open>count\<close> its value is not negative,
  so the decrement stays within \<open>int16_t\<close>.
\<close>

partial_function (option) find_leaf_loop ::
  "Properties \<Rightarrow> 'ch list \<Rightarrow> Tree \<Rightarrow> nat \<Rightarrow> (error + nat \<times> 'ch list \<times> Tree) option"
where
  "find_leaf_loop properties leaves tree pos =
     (if length tree \<le> pos then Some (Inl OutOfBounds)
      else if property (tree ! pos) \<noteq> - 1 then
        (if count (tree ! pos) < 0 then
           (if property (tree ! pos) < 0 \<or> length properties \<le> nat (property (tree ! pos))
              then Some (Inl OutOfBounds)
            else if properties ! nat (property (tree ! pos)) > splitval (tree ! pos)
              then find_leaf_loop properties leaves tree (childID (tree ! pos))
            else find_leaf_loop properties leaves tree (childID (tree ! pos) + 1))
         else if count (tree ! pos) > 0 then
           (if \<not> leafID (tree ! pos) < length leaves then Some (Inl AssertionFailed)
            else
              let tree1 = tree[pos := (tree ! pos)\<lparr>count := count (tree ! pos) - 1\<rparr>]
              in Some (Inr (leafID (tree1 ! pos), leaves, tree1)))
         else
           (let tree1 = tree[pos := (tree ! pos)\<lparr>count := count (tree ! pos) - 1\<rparr>]
            in if length leaves \<le> leafID (tree1 ! pos) then Some (Inl OutOfBounds)
               else
                 let old_leaf = leafID (tree1 ! pos);
                     new_leaf = length leaves;
                     leaves1 = leaves @ [leaves ! old_leaf]
                 in if length tree1 \<le> childID (tree1 ! pos) then Some (Inl OutOfBounds)
                    else
                      let tree2 = tree1[childID (tree1 ! pos) :=
                                    (tree1 ! childID (tree1 ! pos))\<lparr>leafID := old_leaf\<rparr>]
                      in if length tree2 \<le> childID (tree2 ! pos) + 1 then Some (Inl OutOfBounds)
                         else
                           let tree3 = tree2[childID (tree2 ! pos) + 1 :=
                                         (tree2 ! (childID (tree2 ! pos) + 1))\<lparr>leafID := new_leaf\<rparr>]
                           in if property (tree3 ! pos) < 0
                                 \<or> length properties \<le> nat (property (tree3 ! pos))
                                then Some (Inl OutOfBounds)
                              else if properties ! nat (property (tree3 ! pos))
                                       > splitval (tree3 ! pos)
                                then Some (Inr (old_leaf, leaves1, tree3))
                              else Some (Inr (new_leaf, leaves1, tree3))))
      else if length leaves \<le> leafID (tree ! pos) then Some (Inl OutOfBounds)
      else Some (Inr (leafID (tree ! pos), leaves, tree)))"

text \<open>
  Class \<open>FinalPropertySymbolCoder\<close>: the state of the RAC that the member \<open>coder\<close> refers
  to, \<open>nb_properties\<close>, the leaf store \<open>leaf_node\<close> and the tree that \<open>inner_node\<close>
  refers to.
\<close>

record ('r, 'ch) FinalPropertySymbolCoder =
  rac :: 'r
  nb_properties :: nat
  leaf_node :: "'ch list"
  inner_node :: Tree

text \<open>
  The constructor. \<open>chances0\<close> is the value of a default-constructed
  \<open>FinalCompoundSymbolChances\<close>.
\<close>

definition FinalPropertySymbolCoder_new ::
  "'ch \<Rightarrow> 'r \<Rightarrow> Ranges \<Rightarrow> Tree \<Rightarrow> error + ('r, 'ch) FinalPropertySymbolCoder" where
  "FinalPropertySymbolCoder_new chances0 racIn rangeIn treeIn =
     (if length treeIn \<le> 0 then Inl OutOfBounds
      else Inr \<lparr>rac = racIn, nb_properties = length rangeIn, leaf_node = [chances0],
                inner_node = treeIn[0 := (treeIn ! 0)\<lparr>leafID := 0\<rparr>]\<rparr>)"

definition find_leaf ::
  "('r, 'ch) FinalPropertySymbolCoder \<Rightarrow> Properties
    \<Rightarrow> (error + nat \<times> ('r, 'ch) FinalPropertySymbolCoder) option" where
  "find_leaf st properties =
     (case find_leaf_loop properties (leaf_node st) (inner_node st) 0 of
        None \<Rightarrow> None
      | Some (Inl e) \<Rightarrow> Some (Inl e)
      | Some (Inr (leaf, leaves, tree)) \<Rightarrow>
          Some (Inr (leaf, st\<lparr>leaf_node := leaves, inner_node := tree\<rparr>)))"

text \<open>
  \<open>read_int(properties, min, max)\<close> and \<open>read_int(properties, nbits)\<close>. The decoded
  value updates the chances of the leaf found, and the RAC.
\<close>

definition read_int ::
  "(('r, 'ch) bitCoder \<Rightarrow> int \<Rightarrow> int \<Rightarrow> int \<times> ('r, 'ch) bitCoder)
    \<Rightarrow> ('r, 'ch) FinalPropertySymbolCoder \<Rightarrow> Properties \<Rightarrow> int \<Rightarrow> int
    \<Rightarrow> (error + int \<times> ('r, 'ch) FinalPropertySymbolCoder) option" where
  "read_int decode st properties minv maxv =
     (if minv = maxv then Some (Inr (minv, st))
      else if length properties \<noteq> nb_properties st then Some (Inl AssertionFailed)
      else case find_leaf st properties of
        None \<Rightarrow> None
      | Some (Inl e) \<Rightarrow> Some (Inl e)
      | Some (Inr (leaf, st1)) \<Rightarrow>
          (case FinalCompoundSymbolCoder_read_int decode (rac st1) (leaf_node st1 ! leaf) minv maxv of
             (val, rac1, chances1) \<Rightarrow>
               Some (Inr (val, st1\<lparr>rac := rac1, leaf_node := (leaf_node st1)[leaf := chances1]\<rparr>))))"

definition read_int_nbits ::
  "(('r, 'ch) bitCoder \<Rightarrow> int \<Rightarrow> int \<times> ('r, 'ch) bitCoder)
    \<Rightarrow> ('r, 'ch) FinalPropertySymbolCoder \<Rightarrow> Properties \<Rightarrow> int
    \<Rightarrow> (error + int \<times> ('r, 'ch) FinalPropertySymbolCoder) option" where
  "read_int_nbits decode_bits st properties nbits =
     (if length properties \<noteq> nb_properties st then Some (Inl AssertionFailed)
      else case find_leaf st properties of
        None \<Rightarrow> None
      | Some (Inl e) \<Rightarrow> Some (Inl e)
      | Some (Inr (leaf, st1)) \<Rightarrow>
          (case FinalCompoundSymbolCoder_read_int_nbits decode_bits (rac st1) (leaf_node st1 ! leaf) nbits of
             (val, rac1, chances1) \<Rightarrow>
               Some (Inr (val, st1\<lparr>rac := rac1, leaf_node := (leaf_node st1)[leaf := chances1]\<rparr>))))"

subsection \<open>MetaPropertySymbolCoder\<close>

text \<open>
  The member \<open>coder\<close> is a \<open>SimpleSymbolCoder\<close>, a class of \<open>symbol.hpp\<close>: its state is
  of a type \<open>'c\<close> left open, and its method \<open>read_int(min, max)\<close> is the parameter
  \<open>coder_read_int\<close> of the functions below, which takes the state and returns the decoded
  value with the new state. The constants \<open>CONTEXT_TREE_MIN_COUNT\<close> and
  \<open>CONTEXT_TREE_MAX_COUNT\<close> are the parameters \<open>min_count\<close> and \<open>max_count\<close>.

  \<open>read_subtree\<close> is recursive; \<open>fuel\<close> bounds the depth of the recursion, and a call
  that exhausts it has no result (\<open>None\<close>).

  Beside the boolean, the range vector, the tree and the coder, the result carries the
  list of the nodes visited, in order: a record of the run, which no branch reads. At an
  inner node it holds the position, the decoded property, the two bounds \<open>oldmin\<close> and
  \<open>oldmax\<close> read from the range vector, and the size of the tree on entry.
\<close>

datatype visit = Leaf_visit nat | Inner_visit nat int PropertyVal PropertyVal nat

fun read_subtree ::
  "('c \<Rightarrow> int \<Rightarrow> int \<Rightarrow> int \<times> 'c) \<Rightarrow> nat \<Rightarrow> int \<Rightarrow> int \<Rightarrow> nat
    \<Rightarrow> nat \<Rightarrow> Ranges \<Rightarrow> Tree \<Rightarrow> 'c
    \<Rightarrow> (error + bool \<times> visit list \<times> Ranges \<times> Tree \<times> 'c) option"
where
  "read_subtree coder_read_int nb min_count max_count 0 pos subrange tree c = None"
| "read_subtree coder_read_int nb min_count max_count (Suc fuel) pos subrange tree c =
     (if length tree \<le> pos then Some (Inl OutOfBounds)
      else
        case coder_read_int c 0 (int nb) of (v, c1) \<Rightarrow>
        let p = int8_t (v - 1);
            tree1 = tree[pos := (tree ! pos)\<lparr>property := p\<rparr>]
        in
        if p \<noteq> - 1 then
          if p < 0 \<or> length subrange \<le> nat p then Some (Inl OutOfBounds)
          else
            let oldmin = fst (subrange ! nat p);
                oldmax = snd (subrange ! nat p);
                here = Inner_visit pos p oldmin oldmax (length tree)
            in
            if oldmin \<ge> oldmax then Some (Inr (False, [here], subrange, tree1, c1))
            else
              case coder_read_int c1 min_count max_count of (cnt, c2) \<Rightarrow>
              case coder_read_int c2 oldmin (oldmax - 1) of (sv, c3) \<Rightarrow>
              let child = length tree1;
                  tree2 = tree1[pos := (tree1 ! pos)
                            \<lparr>count := int16_t cnt, splitval := sv, childID := child\<rparr>]
                          @ [PropertyDecisionNode_default, PropertyDecisionNode_default];
                  subrange1 = subrange[nat p := (sv + 1, snd (subrange ! nat p))]
              in
              case read_subtree coder_read_int nb min_count max_count fuel
                     child subrange1 tree2 c3 of
                None \<Rightarrow> None
              | Some (Inl e) \<Rightarrow> Some (Inl e)
              | Some (Inr (ok1, visits1, subrange2, tree3, c4)) \<Rightarrow>
                  if \<not> ok1 then Some (Inr (False, here # visits1, subrange2, tree3, c4))
                  else
                    let subrange3 = subrange2[nat p := (oldmin, sv)]
                    in
                    case read_subtree coder_read_int nb min_count max_count fuel
                           (child + 1) subrange3 tree3 c4 of
                      None \<Rightarrow> None
                    | Some (Inl e) \<Rightarrow> Some (Inl e)
                    | Some (Inr (ok2, visits2, subrange4, tree4, c5)) \<Rightarrow>
                        if \<not> ok2
                          then Some (Inr (False, here # visits1 @ visits2, subrange4, tree4, c5))
                        else Some (Inr (True, here # visits1 @ visits2,
                                        subrange4[nat p := (fst (subrange4 ! nat p), oldmax)],
                                        tree4, c5))
        else Some (Inr (True, [Leaf_visit pos], subrange, tree1, c1)))"

text \<open>
  \<open>read_tree\<close>: the member \<open>range\<close> is the argument \<open>range'\<close>, and \<open>nb_properties\<close> is
  its size, as the constructor sets it.
\<close>

definition read_tree ::
  "('c \<Rightarrow> int \<Rightarrow> int \<Rightarrow> int \<times> 'c) \<Rightarrow> int \<Rightarrow> int \<Rightarrow> nat
    \<Rightarrow> Ranges \<Rightarrow> 'c \<Rightarrow> Tree
    \<Rightarrow> (error + bool \<times> visit list \<times> Ranges \<times> Tree \<times> 'c) option"
where
  "read_tree coder_read_int min_count max_count fuel range' c tree =
     (let rootrange = range';
          tree0 = [PropertyDecisionNode_default]
      in read_subtree coder_read_int (length range') min_count max_count fuel 0 rootrange tree0 c)"

subsection \<open>Notions used in the statements\<close>

text \<open>
  What is assumed of \<open>SimpleSymbolCoder::read_int(min, max)\<close>: for \<open>min \<le> max\<close> the
  decoded value lies in \<open>[min, max]\<close>.
\<close>

definition reads_in_range :: "('c \<Rightarrow> int \<Rightarrow> int \<Rightarrow> int \<times> 'c) \<Rightarrow> bool" where
  "reads_in_range coder_read_int =
     (\<forall>c lo hi. lo \<le> hi \<longrightarrow> lo \<le> fst (coder_read_int c lo hi) \<and> fst (coder_read_int c lo hi) \<le> hi)"

text \<open>The total width of a range vector: it bounds the depth of \<open>read_subtree\<close>.\<close>

definition range_width :: "Ranges \<Rightarrow> nat" where
  "range_width subrange = sum_list (map (\<lambda>r. nat (snd r - fst r)) subrange)"

fun visit_pos :: "visit \<Rightarrow> nat" where
  "visit_pos (Leaf_visit pos) = pos"
| "visit_pos (Inner_visit pos p lo hi sz) = pos"

text \<open>
  Well-formedness of a tree with its leaf store: the two children of every node whose
  \<open>property\<close> is not \<open>-1\<close> exist, and every \<open>leafID\<close> is an index of the leaf store.
\<close>

definition children_exist :: "Tree \<Rightarrow> bool" where
  "children_exist tree =
     (\<forall>i < length tree. property (tree ! i) \<noteq> - 1 \<longrightarrow>
        childID (tree ! i) < length tree \<and> childID (tree ! i) + 1 < length tree)"

definition leafIDs_valid :: "Tree \<Rightarrow> 'ch list \<Rightarrow> bool" where
  "leafIDs_valid tree leaves = (\<forall>i < length tree. leafID (tree ! i) < length leaves)"

text \<open>
  The \<open>property\<close> of a node is \<open>-1\<close> or the index of a property, and the children of a
  node come after it in the tree.
\<close>

definition properties_valid :: "nat \<Rightarrow> Tree \<Rightarrow> bool" where
  "properties_valid nb tree =
     (\<forall>i < length tree. property (tree ! i) \<noteq> - 1 \<longrightarrow>
        0 \<le> property (tree ! i) \<and> nat (property (tree ! i)) < nb)"

definition children_after :: "Tree \<Rightarrow> bool" where
  "children_after tree =
     (\<forall>i < length tree. property (tree ! i) \<noteq> - 1 \<longrightarrow> i < childID (tree ! i))"

text \<open>
  What a visit of \<open>read_subtree\<close> has left in the tree \<open>tree'\<close>, for a call entered with
  a tree of \<open>n\<close> nodes. At a leaf the \<open>property\<close> is \<open>-1\<close>. At an inner node the
  \<open>property\<close> is the decoded one, the range vector had room (\<open>lo < hi\<close>), \<open>count\<close> lies
  in \<open>[min_count, max_count]\<close>, \<open>splitval\<close> in \<open>[lo, hi - 1]\<close>, and \<open>childID\<close> is the size
  \<open>sz\<close> that the tree had at the visit, with the nodes \<open>sz\<close> and \<open>sz + 1\<close> in the tree and
  not among the \<open>n\<close> nodes of the entry.
\<close>

definition visit_decoded :: "int \<Rightarrow> int \<Rightarrow> nat \<Rightarrow> Tree \<Rightarrow> visit \<Rightarrow> bool" where
  "visit_decoded min_count max_count n tree' e =
     (case e of
        Leaf_visit q \<Rightarrow> q < length tree' \<and> property (tree' ! q) = - 1
      | Inner_visit q p lo hi sz \<Rightarrow>
          q < length tree' \<and> property (tree' ! q) = p \<and> p \<noteq> - 1 \<and> lo < hi
          \<and> min_count \<le> count (tree' ! q) \<and> count (tree' ! q) \<le> max_count
          \<and> lo \<le> splitval (tree' ! q) \<and> splitval (tree' ! q) \<le> hi - 1
          \<and> childID (tree' ! q) = sz \<and> n \<le> sz \<and> sz + 1 < length tree')"

text \<open>
  A stand-in for the coder in examples: its state is the list of the values still to be
  decoded, and a read takes the next one, brought into \<open>[min, max]\<close>.
\<close>

fun replay :: "int list \<Rightarrow> int \<Rightarrow> int \<Rightarrow> int \<times> int list" where
  "replay [] lo hi = (lo, [])"
| "replay (x # xs) lo hi = (max lo (min hi x), xs)"

text \<open>
  The state of a tree as \<open>read_tree\<close> leaves it: well-formed, with valid properties and
  children after their parents, and every \<open>leafID\<close> still 0.
\<close>

definition fresh_tree :: "nat \<Rightarrow> Tree \<Rightarrow> bool" where
  "fresh_tree nb tree =
     (children_exist tree \<and> children_after tree \<and> properties_valid nb tree
      \<and> (\<forall>i < length tree. leafID (tree ! i) = 0))"

text \<open>
  The routing state of a \<open>FinalPropertySymbolCoder\<close>: the tree and the size of the leaf
  store. \<open>routing_after\<close> keeps of an outcome the error or the routing state.
\<close>

definition routing_state :: "('r, 'ch) FinalPropertySymbolCoder \<Rightarrow> Tree \<times> nat" where
  "routing_state st = (inner_node st, length (leaf_node st))"

definition routing_after ::
  "(error + 'a \<times> ('r, 'ch) FinalPropertySymbolCoder) option \<Rightarrow> (error + Tree \<times> nat) option" where
  "routing_after outcome =
     (case outcome of
        None \<Rightarrow> None
      | Some (Inl e) \<Rightarrow> Some (Inl e)
      | Some (Inr (x, st)) \<Rightarrow> Some (Inr (routing_state st)))"

text \<open>
  The tree after the assignments of a lazy split at \<open>pos\<close>, where \<open>m\<close> is the index of
  the new leaf: \<open>count\<close> of the node becomes \<open>-1\<close>, and the \<open>leafID\<close> of its two
  children become the old leaf and \<open>m\<close>.
\<close>

definition split_tree :: "Tree \<Rightarrow> nat \<Rightarrow> nat \<Rightarrow> Tree" where
  "split_tree t pos m =
     (let n = t ! pos;
          t1 = t[pos := n\<lparr>count := - 1\<rparr>];
          t2 = t1[childID n := (t1 ! childID n)\<lparr>leafID := leafID n\<rparr>]
      in t2[childID n + 1 := (t2 ! (childID n + 1))\<lparr>leafID := m\<rparr>])"


text \<open>
  The tree of the scenario "single split": a root that tests property 1 against 128, with
  \<open>k\<close> visits left before it splits, and its two children.
\<close>

definition single_split :: "int \<Rightarrow> Tree" where
  "single_split k =
     [\<lparr>property = 1, count = k, splitval = 128, childID = 1, leafID = 0\<rparr>,
      PropertyDecisionNode_default, PropertyDecisionNode_default]"

section \<open>Properties of the YCoCg transform\<close>

lemma init_true_iff:
  "fst (init t src) \<longleftrightarrow>
     3 \<le> length src
     \<and> 0 \<le> fst (src ! 0) \<and> 0 \<le> fst (src ! 1) \<and> 0 \<le> fst (src ! 2)
     \<and> fst (src ! 0) \<noteq> snd (src ! 0) \<and> fst (src ! 1) \<noteq> snd (src ! 1)
     \<and> fst (src ! 2) \<noteq> snd (src ! 2)"
  by (auto simp: init_def numPlanes_def range_min_def range_max_def Let_def)

lemma init_true_state:
  assumes "init t src = (True, t')"
  shows "ranges t' = src"
    and "par t' = cdiv (max (max (snd (src ! 0)) (snd (src ! 1))) (snd (src ! 2))) 4 + 1"
  using assms
  by (auto simp: init_def numPlanes_def range_min_def range_max_def Let_def split: if_splits)

lemma int32_t_id: "- 2147483648 \<le> x \<Longrightarrow> x \<le> 2147483647 \<Longrightarrow> int32_t x = x"
  by (simp add: int32_t_def)

lemma int32_t_le: "int32_t x \<le> 2147483647"
proof -
  have "(x + 2147483648) mod 4294967296 < 4294967296" by simp
  then show ?thesis unfolding int32_t_def by linarith
qed

lemma abs32_id: "\<bar>x\<bar> \<le> 2147483647 \<Longrightarrow> abs32 x = \<bar>x\<bar>"
  by (simp add: abs32_def int32_t_id)

lemma cdiv_nonneg: "0 \<le> a \<Longrightarrow> 0 < b \<Longrightarrow> cdiv a b = a div b"
  by (cases "a = 0") (simp_all add: cdiv_def)

lemma halves: "(x::int) div 2 + (x + 1) div 2 = x"
  by linarith

lemma roundtrip_core:
  fixes R G B :: int
  defines "p \<equiv> (R + B) div 2"
  defines "Y \<equiv> (p + G) div 2" and "Co \<equiv> R - B - 1" and "Cg \<equiv> p - G - 1"
  shows "Y + (Cg + 2) div 2 + (Co + 2) div 2 = R"
    and "Y - (Cg + 1) div 2 = G"
    and "Y + (Cg + 2) div 2 - (Co + 1) div 2 = B"
proof -
  have "p + G = (p - G) + 2 * G" by simp
  then have "Y = (p - G + 2 * G) div 2" by (simp add: Y_def)
  then have Y: "Y = (p - G) div 2 + G" by simp
  have "R + B = (R - B) + 2 * B" by simp
  then have "p = (R - B + 2 * B) div 2" by (simp add: p_def)
  then have p: "p = (R - B) div 2 + B" by simp
  have Cg2: "Cg + 2 = (p - G) + 1" and Cg1: "Cg + 1 = p - G"
    and Co2: "Co + 2 = (R - B) + 1" and Co1: "Co + 1 = R - B"
    by (simp_all add: Cg_def Co_def)
  show "Y - (Cg + 1) div 2 = G" unfolding Cg1 Y by simp
  have q: "Y + (Cg + 2) div 2 = p"
    unfolding Cg2 Y using halves [of "p - G"] by linarith
  show "Y + (Cg + 2) div 2 + (Co + 2) div 2 = R"
    unfolding q Co2 using p halves [of "R - B"] by linarith
  show "Y + (Cg + 2) div 2 - (Co + 1) div 2 = B"
    unfolding q Co1 using p by linarith
qed

text \<open>
  Below \<open>2^30\<close> no sum of the forward transform overflows, and it computes the formulas
  over the integers.
\<close>

lemma data_px_val:
  assumes "0 \<le> R" "R \<le> n" "0 \<le> G" "G \<le> n" "0 \<le> B" "B \<le> n" "n \<le> 1073741823"
  shows "data_px (R, G, B) = (((R + B) div 2 + G) div 2, R - B - 1, (R + B) div 2 - G - 1)"
proof -
  have s: "int32_t (R + B) = R + B" using assms by (simp add: int32_t_id)
  have q: "0 \<le> (R + B) div 2" "(R + B) div 2 \<le> n" using assms by linarith+
  have t: "int32_t ((R + B) div 2 + G) = (R + B) div 2 + G"
    using assms q by (simp add: int32_t_id)
  have co: "int32_t (R - B - 1) = R - B - 1" using assms by (simp add: int32_t_id)
  have cg: "int32_t ((R + B) div 2 - G - 1) = (R + B) div 2 - G - 1"
    using assms q by (simp add: int32_t_id)
  show ?thesis by (simp add: data_px_def shr_def Let_def s t co cg)
qed

lemma data_pxI:
  assumes "0 \<le> R" "R \<le> n" "0 \<le> G" "G \<le> n" "0 \<le> B" "B \<le> n" "n \<le> 1073741823"
    and "2 * p \<le> R + B" "R + B \<le> 2 * p + 1" "2 * y \<le> p + G" "p + G \<le> 2 * y + 1"
  shows "data_px (R, G, B) = (y, R - B - 1, p - G - 1)"
proof -
  have p: "(R + B) div 2 = p" using assms(8,9) by linarith
  have y: "(p + G) div 2 = y" using assms(10,11) by linarith
  show ?thesis using data_px_val [OF assms(1-7)] by (simp add: p y)
qed

lemma clip_id: "l \<le> x \<Longrightarrow> x \<le> u \<Longrightarrow> clip x l u = x"
  by (simp add: clip_def)

lemma invData_px_val:
  fixes R G B :: int
  assumes "0 \<le> R" "R \<le> n" "0 \<le> G" "G \<le> n" "0 \<le> B" "B \<le> n" "n \<le> 1073741823"
    and "R \<le> range_max (ranges t) 0" "G \<le> range_max (ranges t) 1" "B \<le> range_max (ranges t) 2"
  shows "invData_px t (((R + B) div 2 + G) div 2, R - B - 1, (R + B) div 2 - G - 1) = (R, G, B)"
proof -
  define p where "p = (R + B) div 2"
  define Y where "Y = (p + G) div 2"
  define Co where "Co = R - B - 1"
  define Cg where "Cg = p - G - 1"
  note rc = roundtrip_core [of R B G, folded p_def, folded Y_def Co_def Cg_def]
  have q: "0 \<le> p" "p \<le> n" unfolding p_def using assms(1-6) by linarith+
  have co: "- n - 1 \<le> Co" "Co \<le> n - 1" unfolding Co_def using assms(1-6) by linarith+
  have cg: "- n - 1 \<le> Cg" "Cg \<le> n - 1" unfolding Cg_def using q assms(1-6) by linarith+
  have w: "int32_t (Cg + 2) = Cg + 2" "int32_t (Cg + 1) = Cg + 1"
    "int32_t (Co + 2) = Co + 2" "int32_t (Co + 1) = Co + 1"
    using co cg assms(7) by (simp_all add: int32_t_id)
  have r: "int32_t R = R" "int32_t G = G" "int32_t B = B"
    using assms(1-7) by (simp_all add: int32_t_id)
  have "invData_px t (Y, Co, Cg) = (R, G, B)"
    using assms(1,3,5,8-10) by (simp add: invData_px_def shr_def Let_def w rc r clip_id)
  then show ?thesis by (simp add: Y_def Co_def Cg_def p_def)
qed

lemma roundtrip_px:
  assumes "init t0 src = (True, t)"
    and "range_max src 0 < 1073741824" "range_max src 1 < 1073741824"
      "range_max src 2 < 1073741824"
    and "0 \<le> R" "R \<le> range_max src 0"
    and "0 \<le> G" "G \<le> range_max src 1"
    and "0 \<le> B" "B \<le> range_max src 2"
  shows "invData_px t (data_px (R, G, B)) = (R, G, B)"
proof -
  have r: "ranges t = src" using assms(1) by (rule init_true_state)
  have b: "R \<le> 1073741823" "G \<le> 1073741823" "B \<le> 1073741823"
    using assms(2-) by linarith+
  have d: "data_px (R, G, B) = (((R + B) div 2 + G) div 2, R - B - 1, (R + B) div 2 - G - 1)"
    using assms(5,7,9) b by (intro data_px_val [where n = 1073741823]) simp_all
  show ?thesis
    unfolding d using assms(5-) b
    by (intro invData_px_val [where n = 1073741823]) (simp_all add: r)
qed

text \<open>
  At the maxima \<open>2^30\<close>, which \<open>init\<close> accepts, the sum \<open>R + B\<close> of the forward transform
  overflows.
\<close>

lemma init_overflow:
  "init \<lparr>par = 0, ranges = []\<rparr> [(0, 1073741824), (0, 1073741824), (0, 1073741824)]
     = (True, \<lparr>par = 268435457, ranges = [(0, 1073741824), (0, 1073741824), (0, 1073741824)]\<rparr>)"
  by (simp add: init_def numPlanes_def range_min_def range_max_def cdiv_def)

lemma data_px_overflow:
  "data_px (1073741824, 0, 1073741824) = (- 536870912, - 1, - 1073741825)"
  by (simp add: data_px_def shr_def int32_t_def Let_def)

lemma invData_px_overflow:
  "invData_px \<lparr>par = 268435457, ranges = [(0, 1073741824), (0, 1073741824), (0, 1073741824)]\<rparr>
     (- 536870912, - 1, - 1073741825) = (0, 0, 0)"
  by (simp add: invData_px_def shr_def int32_t_def Let_def clip_def range_max_def)

text \<open>
  Claim C1 (round trip), as amended: every channel maximum is below \<open>2^30\<close>. Let \<open>init\<close>
  accept the source ranges, let the three maxima be below \<open>2^30\<close>, and let each of \<open>R\<close>,
  \<open>G\<close>, \<open>B\<close> lie between 0 and the maximum of its plane. Then the inverse transform of
  \<open>invData\<close>, clamp included, applied to the forward transform of \<open>data\<close>, gives back
  \<open>(R, G, B)\<close>.
\<close>

theorem ycocg_roundtrip:
  assumes "init t0 src = (True, t)"
    and "range_max src 0 < 1073741824" "range_max src 1 < 1073741824"
      "range_max src 2 < 1073741824"
    and "0 \<le> R" "R \<le> range_max src 0"
    and "0 \<le> G" "G \<le> range_max src 1"
    and "0 \<le> B" "B \<le> range_max src 2"
  shows "invData_px t (data_px (R, G, B)) = (R, G, B)"
  using assms by (rule roundtrip_px)

theorem ycocg_roundtrip_witness:
  "init \<lparr>par = 0, ranges = []\<rparr> [(0,255),(0,255),(0,255)]
     = (True, \<lparr>par = 64, ranges = [(0,255),(0,255),(0,255)]\<rparr>)
   \<and> range_max [(0,255),(0,255),(0,255)] 0 < 1073741824
   \<and> range_max [(0,255),(0,255),(0,255)] 1 < 1073741824
   \<and> range_max [(0,255),(0,255),(0,255)] 2 < 1073741824
   \<and> data_px (200, 100, 50) = (112, 149, 24)
   \<and> invData_px \<lparr>par = 64, ranges = [(0,255),(0,255),(0,255)]\<rparr> (data_px (200, 100, 50)) = (200, 100, 50)"
proof -
  have i: "init \<lparr>par = 0, ranges = []\<rparr> [(0,255),(0,255),(0,255)]
     = (True, \<lparr>par = 64, ranges = [(0,255),(0,255),(0,255)]\<rparr>)"
    by (simp add: init_def numPlanes_def range_min_def range_max_def cdiv_def)
  have m: "range_max [(0,255),(0,255),(0,255)] 0 < 1073741824"
    "range_max [(0,255),(0,255),(0,255)] 1 < 1073741824"
    "range_max [(0,255),(0,255),(0,255)] 2 < 1073741824"
    by (simp_all add: range_max_def)
  have d: "data_px (200, 100, 50) = (112, 149, 24)"
    by (simp add: data_px_def shr_def int32_t_def)
  show ?thesis
    using i m d ycocg_roundtrip [OF i m, of 200 100 50]
    by (simp add: range_max_def)
qed

text \<open>
  As the claim states it, for every range that \<open>init\<close> accepts, it fails: with the three
  maxima \<open>2^30\<close> the triple \<open>(2^30, 0, 2^30)\<close> lies in the declared ranges, \<open>R + B\<close>
  wraps around to \<open>- 2^31\<close>, and the inverse transform gives \<open>(0, 0, 0)\<close>.
\<close>

theorem ycocg_roundtrip_counterexample:
  "init \<lparr>par = 0, ranges = []\<rparr> [(0, 1073741824), (0, 1073741824), (0, 1073741824)]
     = (True, \<lparr>par = 268435457, ranges = [(0, 1073741824), (0, 1073741824), (0, 1073741824)]\<rparr>)
   \<and> (0::int) \<le> 1073741824
   \<and> (1073741824::int) \<le> range_max [(0, 1073741824), (0, 1073741824), (0, 1073741824)] 0
   \<and> (0::int) \<le> range_max [(0, 1073741824), (0, 1073741824), (0, 1073741824)] 1
   \<and> (1073741824::int) \<le> range_max [(0, 1073741824), (0, 1073741824), (0, 1073741824)] 2
   \<and> data_px (1073741824, 0, 1073741824) = (- 536870912, - 1, - 1073741825)
   \<and> invData_px \<lparr>par = 268435457, ranges = [(0, 1073741824), (0, 1073741824), (0, 1073741824)]\<rparr>
        (data_px (1073741824, 0, 1073741824)) = (0, 0, 0)
   \<and> invData_px \<lparr>par = 268435457, ranges = [(0, 1073741824), (0, 1073741824), (0, 1073741824)]\<rparr>
        (data_px (1073741824, 0, 1073741824)) \<noteq> (1073741824, 0, 1073741824)"
  using init_overflow data_px_overflow invData_px_overflow
  by (simp add: range_max_def)

lemma invData_data:
  assumes "init t0 src = (True, t)"
    and "range_max src 0 < 1073741824" "range_max src 1 < 1073741824"
      "range_max src 2 < 1073741824"
    and "\<forall>img \<in> set images. \<forall>(R, G, B) \<in> set img.
           0 \<le> R \<and> R \<le> range_max src 0 \<and> 0 \<le> G \<and> G \<le> range_max src 1
           \<and> 0 \<le> B \<and> B \<le> range_max src 2"
  shows "invData t (data images) = images"
proof -
  have "map (invData_px t \<circ> data_px) img = img" if "img \<in> set images" for img
  proof (rule map_idI)
    fix px assume px: "px \<in> set img"
    obtain R G B where e: "px = (R, G, B)" by (cases px) auto
    from assms(5) that px e
    have "0 \<le> R \<and> R \<le> range_max src 0 \<and> 0 \<le> G \<and> G \<le> range_max src 1
           \<and> 0 \<le> B \<and> B \<le> range_max src 2" by fastforce
    then show "(invData_px t \<circ> data_px) px = px"
      using roundtrip_px [OF assms(1-4), of R G B] e by simp
  qed
  then show ?thesis
    by (simp add: invData_def data_def map_idI)
qed

lemma par_covers:
  assumes "0 \<le> m" shows "m \<le> 4 * (cdiv m 4 + 1) - 1"
proof -
  have "cdiv m 4 = m div 4" using assms by (simp add: cdiv_nonneg)
  moreover have "m \<le> 4 * (m div 4 + 1) - 1" by presburger
  ultimately show ?thesis by simp
qed

text \<open>
  Claim C6 (range closure), as amended: the largest maximum is below \<open>2^30\<close>. Let \<open>init\<close>
  accept the source ranges, let \<open>M\<close>, the largest of the three maxima, be below \<open>2^30\<close>,
  and let \<open>R\<close>, \<open>G\<close>, \<open>B\<close> lie in \<open>[0, M]\<close>. Then \<open>par\<close> is \<open>M / 4 + 1\<close>, and the
  forward outputs lie within the static bounds that \<open>ColorRangesYCoCg::min\<close> and
  \<open>ColorRangesYCoCg::max\<close> report: \<open>Y\<close> in \<open>[0, 4 par - 1]\<close>, \<open>Co\<close> and \<open>Cg\<close> in
  \<open>[- 4 par, 4 par - 2]\<close>.
\<close>

theorem ycocg_range_closure:
  assumes i: "init t0 src = (True, t)"
    and M: "M = max (max (range_max src 0) (range_max src 1)) (range_max src 2)"
    and b: "M < 1073741824"
    and rgb: "0 \<le> R" "R \<le> M" "0 \<le> G" "G \<le> M" "0 \<le> B" "B \<le> M"
    and d: "data_px (R, G, B) = (Y, Co, Cg)"
  shows "par t = cdiv M 4 + 1
    \<and> ColorRangesYCoCg_min (meta t src) 0 = Inr 0
    \<and> ColorRangesYCoCg_max (meta t src) 0 = Inr (4 * par t - 1)
    \<and> 0 \<le> Y \<and> Y \<le> 4 * par t - 1
    \<and> ColorRangesYCoCg_min (meta t src) 1 = Inr (- 4 * par t)
    \<and> ColorRangesYCoCg_max (meta t src) 1 = Inr (4 * par t - 2)
    \<and> - 4 * par t \<le> Co \<and> Co \<le> 4 * par t - 2
    \<and> ColorRangesYCoCg_min (meta t src) 2 = Inr (- 4 * par t)
    \<and> ColorRangesYCoCg_max (meta t src) 2 = Inr (4 * par t - 2)
    \<and> - 4 * par t \<le> Cg \<and> Cg \<le> 4 * par t - 2"
proof -
  have p: "par t = cdiv M 4 + 1" using init_true_state(2) [OF i] M by (simp add: range_max_def)
  have M0: "0 \<le> M" using rgb by linarith
  then have c: "M \<le> 4 * par t - 1" unfolding p by (rule par_covers)
  have "cdiv M 4 = M div 4" using M0 by (simp add: cdiv_nonneg)
  then have pb: "1 \<le> par t" "par t \<le> 268435456" unfolding p using M0 b by linarith+
  have w: "int32_t (4 * par t - 1) = 4 * par t - 1" "int32_t (- 4 * par t) = - 4 * par t"
    "int32_t (4 * par t - 2) = 4 * par t - 2" "int32_t (- (4 * par t)) = - (4 * par t)"
    using pb by (simp_all add: int32_t_id)
  have "data_px (R, G, B) = (((R + B) div 2 + G) div 2, R - B - 1, (R + B) div 2 - G - 1)"
    using rgb b by (intro data_px_val [where n = M]) simp_all
  with d have Y: "Y = ((R + B) div 2 + G) div 2" and Co: "Co = R - B - 1"
    and Cg: "Cg = (R + B) div 2 - G - 1"
    by simp_all
  have q: "0 \<le> (R + B) div 2" "(R + B) div 2 \<le> M" using rgb by linarith+
  have y: "0 \<le> Y" "Y \<le> M" unfolding Y using q rgb by linarith+
  have co: "- M - 1 \<le> Co" "Co \<le> M - 1" unfolding Co using rgb by linarith+
  have cg: "- M - 1 \<le> Cg" "Cg \<le> M - 1" unfolding Cg using q rgb by linarith+
  have s: "ColorRangesYCoCg_min (meta t src) 0 = Inr 0"
    "ColorRangesYCoCg_max (meta t src) 0 = Inr (4 * par t - 1)"
    "ColorRangesYCoCg_min (meta t src) 1 = Inr (- 4 * par t)"
    "ColorRangesYCoCg_max (meta t src) 1 = Inr (4 * par t - 2)"
    "ColorRangesYCoCg_min (meta t src) 2 = Inr (- 4 * par t)"
    "ColorRangesYCoCg_max (meta t src) 2 = Inr (4 * par t - 2)"
    by (simp_all add: ColorRangesYCoCg_min_def ColorRangesYCoCg_max_def meta_def w)
  have r: "0 \<le> Y \<and> Y \<le> 4 * par t - 1" "- 4 * par t \<le> Co \<and> Co \<le> 4 * par t - 2"
    "- 4 * par t \<le> Cg \<and> Cg \<le> 4 * par t - 2"
    using c y co cg by linarith+
  show ?thesis
    using p s r by blast
qed

theorem ycocg_range_closure_witness:
  "init \<lparr>par = 0, ranges = []\<rparr> [(0, 255), (0, 255), (0, 255)]
     = (True, \<lparr>par = 64, ranges = [(0, 255), (0, 255), (0, 255)]\<rparr>)
   \<and> (255::int) < 1073741824
   \<and> data_px (200, 100, 50) = (112, 149, 24)
   \<and> ColorRangesYCoCg_min
        (meta \<lparr>par = 64, ranges = [(0, 255), (0, 255), (0, 255)]\<rparr> [(0, 255), (0, 255), (0, 255)]) 1
       = Inr (- 256)
   \<and> ColorRangesYCoCg_max
        (meta \<lparr>par = 64, ranges = [(0, 255), (0, 255), (0, 255)]\<rparr> [(0, 255), (0, 255), (0, 255)]) 1
       = Inr 254
   \<and> (- 256 :: int) \<le> 149 \<and> (149 :: int) \<le> 254"
proof -
  have i: "init \<lparr>par = 0, ranges = []\<rparr> [(0, 255), (0, 255), (0, 255)]
     = (True, \<lparr>par = 64, ranges = [(0, 255), (0, 255), (0, 255)]\<rparr>)"
    by (simp add: init_def numPlanes_def range_min_def range_max_def cdiv_def)
  have d: "data_px (200, 100, 50) = (112, 149, 24)"
    by (simp add: data_px_def shr_def int32_t_def)
  have m: "(255::int) = max (max (range_max [(0, 255), (0, 255), (0, 255)] 0)
                                 (range_max [(0, 255), (0, 255), (0, 255)] 1))
                            (range_max [(0, 255), (0, 255), (0, 255)] 2)"
    by (simp add: range_max_def)
  have b: "(255::int) < 1073741824" by simp
  have r: "(0::int) \<le> 200" "(200::int) \<le> 255" "(0::int) \<le> 100" "(100::int) \<le> 255"
    "(0::int) \<le> 50" "(50::int) \<le> 255"
    by simp_all
  show ?thesis
    using i d ycocg_range_closure [OF i m b r d] by simp
qed

text \<open>
  As the claim states it, for every \<open>M\<close> that \<open>init\<close> accepts, it fails: with the three
  maxima \<open>2^30\<close> the parameter is \<open>2^28 + 1\<close>, and the triple \<open>(2^30, 0, 2^30)\<close> of
  \<open>[0, M]\<close> has the luma \<open>- 2^29\<close>, below the reported minimum 0.
\<close>

theorem ycocg_range_closure_counterexample:
  "init \<lparr>par = 0, ranges = []\<rparr> [(0, 1073741824), (0, 1073741824), (0, 1073741824)]
     = (True, \<lparr>par = 268435457, ranges = [(0, 1073741824), (0, 1073741824), (0, 1073741824)]\<rparr>)
   \<and> (1073741824::int)
       = max (max (range_max [(0, 1073741824), (0, 1073741824), (0, 1073741824)] 0)
                  (range_max [(0, 1073741824), (0, 1073741824), (0, 1073741824)] 1))
             (range_max [(0, 1073741824), (0, 1073741824), (0, 1073741824)] 2)
   \<and> (0::int) \<le> 1073741824 \<and> (1073741824::int) \<le> 1073741824
   \<and> ColorRangesYCoCg_min
        (meta \<lparr>par = 268435457, ranges = [(0, 1073741824), (0, 1073741824), (0, 1073741824)]\<rparr>
           [(0, 1073741824), (0, 1073741824), (0, 1073741824)]) 0 = Inr 0
   \<and> data_px (1073741824, 0, 1073741824) = (- 536870912, - 1, - 1073741825)
   \<and> \<not> (0::int) \<le> - 536870912"
  using init_overflow data_px_overflow
  by (simp add: range_max_def ColorRangesYCoCg_min_def meta_def)

text \<open>
  Claim C7 (applicability). \<open>init\<close> returns false exactly when the source has fewer
  than three planes, or one of the three colour planes has a negative minimum, or one of
  them has its minimum equal to its maximum; the object is then left as it was. Otherwise
  \<open>init\<close> returns true with \<open>par = M / 4 + 1\<close>, \<open>M\<close> the largest of the three maxima and
  \<open>/\<close> the division of C++, and with the source ranges stored.
\<close>

theorem init_applicability:
  "init t src =
     (if length src < 3
         \<or> (fst (src ! 0) < 0 \<or> fst (src ! 1) < 0 \<or> fst (src ! 2) < 0)
         \<or> (fst (src ! 0) = snd (src ! 0) \<or> fst (src ! 1) = snd (src ! 1)
             \<or> fst (src ! 2) = snd (src ! 2))
      then (False, t)
      else (True, \<lparr>par = cdiv (max (max (snd (src ! 0)) (snd (src ! 1))) (snd (src ! 2))) 4 + 1,
                   ranges = src\<rparr>))"
  by (simp add: init_def numPlanes_def range_min_def range_max_def Let_def)

theorem init_applicability_witness:
  "init \<lparr>par = 0, ranges = []\<rparr> [(0, 255), (0, 255), (0, 255)]
     = (True, \<lparr>par = 64, ranges = [(0, 255), (0, 255), (0, 255)]\<rparr>)
   \<and> init \<lparr>par = 0, ranges = []\<rparr> [(0, 255), (7, 7), (0, 255)] = (False, \<lparr>par = 0, ranges = []\<rparr>)
   \<and> init \<lparr>par = 0, ranges = []\<rparr> [(0, 255), (0, 255)] = (False, \<lparr>par = 0, ranges = []\<rparr>)"
  using init_applicability [of "\<lparr>par = 0, ranges = []\<rparr>" "[(0, 255), (0, 255), (0, 255)]"]
    init_applicability [of "\<lparr>par = 0, ranges = []\<rparr>" "[(0, 255), (7, 7), (0, 255)]"]
    init_applicability [of "\<lparr>par = 0, ranges = []\<rparr>" "[(0, 255), (0, 255)]"]
  by (simp add: cdiv_def)

lemma get_min_co_val:
  fixes par :: int
  assumes "1 \<le> par" "par \<le> 268435456" "0 \<le> Y" "Y \<le> 4 * par - 1"
  shows "get_min_co par Y = Inr (if Y < par - 1 then - 4 - 4 * Y
                           else if Y \<ge> 3 * par then 3 + 4 * (Y - 4 * par) else - 4 * par)"
  using assms by (simp add: get_min_co_def get_min_y_def get_max_y_def int32_t_id)

lemma get_max_co_val:
  fixes par :: int
  assumes "1 \<le> par" "par \<le> 268435456" "0 \<le> Y" "Y \<le> 4 * par - 1"
  shows "get_max_co par Y = Inr (if Y < par - 1 then 2 + 4 * Y
                           else if Y \<ge> 3 * par then 4 * par - 5 - 4 * (Y - 3 * par)
                           else 4 * par - 2)"
  using assms by (simp add: get_max_co_def get_min_y_def get_max_y_def int32_t_id)

lemma co_bounds:
  fixes par :: int
  assumes par: "1 \<le> par" "par \<le> 268435456" and Y: "0 \<le> Y" "Y \<le> 4 * par - 1"
    and lo: "get_min_co par Y = Inr lo" and hi: "get_max_co par Y = Inr hi"
    and co: "lo \<le> Co" "Co \<le> hi"
  shows "\<bar>Co + 1\<bar> \<le> 4 * par - 1"
proof -
  have lov: "lo = (if Y < par - 1 then - 4 - 4 * Y
                   else if Y \<ge> 3 * par then 3 + 4 * (Y - 4 * par) else - 4 * par)"
    using lo get_min_co_val [OF par Y] by simp
  have hiv: "hi = (if Y < par - 1 then 2 + 4 * Y
                   else if Y \<ge> 3 * par then 4 * par - 5 - 4 * (Y - 3 * par) else 4 * par - 2)"
    using hi get_max_co_val [OF par Y] by simp
  show ?thesis using co par Y unfolding lov hiv by (auto split: if_splits)
qed

lemma get_min_cg_val:
  fixes par :: int
  assumes par: "1 \<le> par" "par \<le> 268435456" and Y: "0 \<le> Y" "Y \<le> 4 * par - 1"
    and lo: "get_min_co par Y = Inr lo" and hi: "get_max_co par Y = Inr hi"
    and co: "lo \<le> Co" "Co \<le> hi"
  shows "get_min_cg par Y Co =
     Inr (if Y < par - 1 then - 2 - 2 * Y + \<bar>Co + 1\<bar> div 2 * 2
          else if Y \<ge> 3 * par then - 1 - 2 * (4 * par - 1 - Y)
          else max (- 4 * par + 1 + (Y - 2 * par) * 2)
                   (- 2 * par - (Y - par + 1) * 2 + \<bar>Co + 1\<bar> div 2 * 2))"
proof -
  note cb = co_bounds [OF assms]
  have i: "int32_t (Co + 1) = Co + 1" using cb par by (simp add: int32_t_id)
  have a: "abs32 (Co + 1) = \<bar>Co + 1\<bar>" using cb par by (simp add: abs32_id)
  have c: "cdiv \<bar>Co + 1\<bar> 2 = \<bar>Co + 1\<bar> div 2" by (simp add: cdiv_nonneg)
  define k where "k = \<bar>Co + 1\<bar> div 2"
  have k: "0 \<le> k" "k \<le> 2 * par - 1" unfolding k_def using cb by linarith+
  have "get_min_cg par Y Co =
     Inr (if Y < par - 1 then - 2 - 2 * Y + k * 2
          else if Y \<ge> 3 * par then - 1 - 2 * (4 * par - 1 - Y)
          else max (- 4 * par + 1 + (Y - 2 * par) * 2)
                   (- 2 * par - (Y - par + 1) * 2 + k * 2))"
    using par Y co k
    by (simp add: get_min_cg_def get_min_y_def get_max_y_def lo hi i a c k_def [symmetric]
          int32_t_id)
  then show ?thesis by (simp add: k_def)
qed

lemma get_max_cg_val:
  fixes par :: int
  assumes par: "1 \<le> par" "par \<le> 268435456" and Y: "0 \<le> Y" "Y \<le> 4 * par - 1"
    and lo: "get_min_co par Y = Inr lo" and hi: "get_max_co par Y = Inr hi"
    and co: "lo \<le> Co" "Co \<le> hi"
  shows "get_max_cg par Y Co =
     Inr (if Y < par - 1 then 2 * Y
          else if Y \<ge> 3 * par then - 1 + 2 * (4 * par - 1 - Y) - (1 + \<bar>Co + 1\<bar>) div 2 * 2
          else min (2 * par - 2 + (Y - par + 1) * 2)
                   (2 * par - 1 + (3 * par - 1 - Y) * 2 - (1 + \<bar>Co + 1\<bar>) div 2 * 2))"
proof -
  note cb = co_bounds [OF assms]
  have i: "int32_t (Co + 1) = Co + 1" using cb par by (simp add: int32_t_id)
  have a: "abs32 (Co + 1) = \<bar>Co + 1\<bar>" using cb par by (simp add: abs32_id)
  have j: "int32_t (1 + \<bar>Co + 1\<bar>) = 1 + \<bar>Co + 1\<bar>" using cb par by (simp add: int32_t_id)
  have c: "cdiv (1 + \<bar>Co + 1\<bar>) 2 = (1 + \<bar>Co + 1\<bar>) div 2" by (simp add: cdiv_nonneg)
  define k where "k = (1 + \<bar>Co + 1\<bar>) div 2"
  have k: "0 \<le> k" "k \<le> 2 * par" unfolding k_def using cb by linarith+
  have "get_max_cg par Y Co =
     Inr (if Y < par - 1 then 2 * Y
          else if Y \<ge> 3 * par then - 1 + 2 * (4 * par - 1 - Y) - k * 2
          else min (2 * par - 2 + (Y - par + 1) * 2)
                   (2 * par - 1 + (3 * par - 1 - Y) * 2 - k * 2))"
    using par Y co k
    by (simp add: get_max_cg_def get_min_y_def get_max_y_def lo hi i a j c k_def [symmetric]
          int32_t_id)
  then show ?thesis by (simp add: k_def)
qed

lemma co_witness:
  assumes "0 \<le> R" "R \<le> n" "0 \<le> G" "G \<le> n" "0 \<le> B" "B \<le> n"
    and "2 * p \<le> R + B" "R + B \<le> 2 * p + 1" "2 * Y \<le> p + G" "p + G \<le> 2 * Y + 1"
    and "bound = Inr (R - B - 1)" and "n \<le> 1073741823"
  shows "\<exists>R G B lo Cg. 0 \<le> R \<and> R \<le> n \<and> 0 \<le> G \<and> G \<le> n \<and> 0 \<le> B \<and> B \<le> n
           \<and> bound = Inr lo \<and> data_px (R, G, B) = (Y, lo, Cg)"
  using assms(1-6,11) data_pxI [OF assms(1-6,12,7-10)] by blast

lemma cg_witness:
  assumes "0 \<le> R" "R \<le> n" "0 \<le> G" "G \<le> n" "0 \<le> B" "B \<le> n"
    and "2 * p \<le> R + B" "R + B \<le> 2 * p + 1" "2 * Y \<le> p + G" "p + G \<le> 2 * Y + 1"
    and "R - B - 1 = Co" and "p - G - 1 = v" and "bound = Inr v" and "n \<le> 1073741823"
  shows "\<exists>R G B v. 0 \<le> R \<and> R \<le> n \<and> 0 \<le> G \<and> G \<le> n \<and> 0 \<le> B \<and> B \<le> n
           \<and> bound = Inr v \<and> data_px (R, G, B) = (Y, Co, v)"
  using assms(1-6,11-13) data_pxI [OF assms(1-6,14,7-10)] by blast

lemma half_abs:
  fixes d :: int
  defines "a \<equiv> \<bar>d\<bar> div 2" and "h \<equiv> (1 + \<bar>d\<bar>) div 2"
  shows "a + h = \<bar>d\<bar>" "a \<le> h" "h \<le> a + 1" "0 \<le> a"
  unfolding a_def h_def by linarith+

lemma min_co_tight:
  fixes par :: int
  assumes par: "1 \<le> par" "par \<le> 268435456" and Y: "0 \<le> Y" "Y \<le> 4 * par - 1"
  shows "\<exists>R G B lo Cg. 0 \<le> R \<and> R \<le> 4 * par - 1 \<and> 0 \<le> G \<and> G \<le> 4 * par - 1
           \<and> 0 \<le> B \<and> B \<le> 4 * par - 1
           \<and> get_min_co par Y = Inr lo \<and> data_px (R, G, B) = (Y, lo, Cg)"
proof -
  note v = get_min_co_val [OF par Y]
  consider (low) "Y < par - 1" | (high) "3 * par \<le> Y" | (first) "Y = par - 1"
    | (mid) "par \<le> Y" "Y < 3 * par"
    by linarith
  then show ?thesis
  proof cases
    case low
    show ?thesis
      by (rule co_witness [where R = 0 and G = 0 and B = "4 * Y + 3" and p = "2 * Y + 1"])
         (use par Y low v in simp_all)
  next
    case high
    show ?thesis
      by (rule co_witness [where R = "4 * Y - 12 * par + 3" and G = "4 * par - 1"
            and B = "4 * par - 1" and p = "2 * Y - 4 * par + 1"])
         (use par Y high v in simp_all)
  next
    case first
    show ?thesis
      by (rule co_witness [where R = 0 and G = 0 and B = "4 * par - 1" and p = "2 * par - 1"])
         (use par Y first v in simp_all)
  next
    case mid
    show ?thesis
      by (rule co_witness [where R = 0 and G = "2 * Y - 2 * par + 1" and B = "4 * par - 1"
            and p = "2 * par - 1"])
         (use par Y mid v in simp_all)
  qed
qed

lemma max_co_tight:
  fixes par :: int
  assumes par: "1 \<le> par" "par \<le> 268435456" and Y: "0 \<le> Y" "Y \<le> 4 * par - 1"
  shows "\<exists>R G B hi Cg. 0 \<le> R \<and> R \<le> 4 * par - 1 \<and> 0 \<le> G \<and> G \<le> 4 * par - 1
           \<and> 0 \<le> B \<and> B \<le> 4 * par - 1
           \<and> get_max_co par Y = Inr hi \<and> data_px (R, G, B) = (Y, hi, Cg)"
proof -
  note v = get_max_co_val [OF par Y]
  consider (low) "Y < par - 1" | (high) "3 * par \<le> Y" | (first) "Y = par - 1"
    | (mid) "par \<le> Y" "Y < 3 * par"
    by linarith
  then show ?thesis
  proof cases
    case low
    show ?thesis
      by (rule co_witness [where R = "4 * Y + 3" and G = 0 and B = 0 and p = "2 * Y + 1"])
         (use par Y low v in simp_all)
  next
    case high
    show ?thesis
      by (rule co_witness [where R = "4 * par - 1" and G = "4 * par - 1"
            and B = "4 * Y - 12 * par + 3" and p = "2 * Y - 4 * par + 1"])
         (use par Y high v in simp_all)
  next
    case first
    show ?thesis
      by (rule co_witness [where R = "4 * par - 1" and G = 0 and B = 0 and p = "2 * par - 1"])
         (use par Y first v in simp_all)
  next
    case mid
    show ?thesis
      by (rule co_witness [where R = "4 * par - 1" and G = "2 * Y - 2 * par + 1" and B = 0
            and p = "2 * par - 1"])
         (use par Y mid v in simp_all)
  qed
qed

lemma min_cg_tight:
  fixes par :: int
  assumes par: "1 \<le> par" "par \<le> 268435456" and Y: "0 \<le> Y" "Y \<le> 4 * par - 1"
    and lo: "get_min_co par Y = Inr lo" and hi: "get_max_co par Y = Inr hi"
    and co: "lo \<le> Co" "Co \<le> hi"
  shows "\<exists>R G B v. 0 \<le> R \<and> R \<le> 4 * par - 1 \<and> 0 \<le> G \<and> G \<le> 4 * par - 1
           \<and> 0 \<le> B \<and> B \<le> 4 * par - 1
           \<and> get_min_cg par Y Co = Inr v \<and> data_px (R, G, B) = (Y, Co, v)"
proof -
  define a where "a = \<bar>Co + 1\<bar> div 2"
  define h where "h = (1 + \<bar>Co + 1\<bar>) div 2"
  note ah = half_abs [of "Co + 1", folded a_def h_def]
  note v = get_min_cg_val [OF par Y lo hi co, folded a_def]
  have lov: "lo = (if Y < par - 1 then - 4 - 4 * Y
                   else if Y \<ge> 3 * par then 3 + 4 * (Y - 4 * par) else - 4 * par)"
    using lo get_min_co_val [OF par Y] by simp
  have hiv: "hi = (if Y < par - 1 then 2 + 4 * Y
                   else if Y \<ge> 3 * par then 4 * par - 5 - 4 * (Y - 3 * par) else 4 * par - 2)"
    using hi get_max_co_val [OF par Y] by simp
  define A where "A = 2 * Y - 8 * par + 1"
  define Bv where "Bv = - 2 - 2 * Y + 2 * a"
  consider (small) "Y < par - 1 \<or> (par - 1 \<le> Y \<and> Y < 3 * par \<and> A < Bv)"
    | (large) "3 * par \<le> Y \<or> (par - 1 \<le> Y \<and> Y < 3 * par \<and> Bv \<le> A)"
    by linarith
  then show ?thesis
  proof cases
    case small
    have val: "get_min_cg par Y Co = Inr Bv"
      using v small par Y by (auto simp: A_def Bv_def max_def)
    have bnd: "\<bar>Co + 1\<bar> \<le> 4 * par - 1" "a \<le> 2 * Y + 1" "2 * Y + 1 - a \<le> 4 * par - 1"
      using small co ah par Y unfolding lov hiv A_def Bv_def
      by (auto split: if_splits)
    show ?thesis
    proof (cases "0 \<le> Co + 1")
      case True
      show ?thesis
        by (rule cg_witness [where R = "Co + 1" and B = 0 and G = "2 * Y + 1 - a" and p = a,
              OF _ _ _ _ _ _ _ _ _ _ _ _ val])
           (use True bnd ah par Y in \<open>simp_all add: Bv_def\<close>)
    next
      case False
      show ?thesis
        by (rule cg_witness [where R = 0 and B = "- (Co + 1)" and G = "2 * Y + 1 - a" and p = a,
              OF _ _ _ _ _ _ _ _ _ _ _ _ val])
           (use False bnd ah par Y in \<open>simp_all add: Bv_def\<close>)
    qed
  next
    case large
    have val: "get_min_cg par Y Co = Inr A"
      using v large par Y by (auto simp: A_def Bv_def max_def)
    define p where "p = 2 * Y - 4 * par + 1"
    have bnd: "0 \<le> p - a" "p + h \<le> 4 * par - 1"
      using large co ah par Y unfolding lov hiv A_def Bv_def p_def
      by (auto split: if_splits)
    show ?thesis
    proof (cases "0 \<le> Co + 1")
      case True
      show ?thesis
        by (rule cg_witness [where R = "p + h" and B = "p - a" and G = "4 * par - 1" and p = p,
              OF _ _ _ _ _ _ _ _ _ _ _ _ val])
           (use True bnd ah par Y in \<open>simp_all add: A_def p_def\<close>)
    next
      case False
      show ?thesis
        by (rule cg_witness [where R = "p - a" and B = "p + h" and G = "4 * par - 1" and p = p,
              OF _ _ _ _ _ _ _ _ _ _ _ _ val])
           (use False bnd ah par Y in \<open>simp_all add: A_def p_def\<close>)
    qed
  qed
qed

lemma max_cg_tight:
  fixes par :: int
  assumes par: "1 \<le> par" "par \<le> 268435456" and Y: "0 \<le> Y" "Y \<le> 4 * par - 1"
    and lo: "get_min_co par Y = Inr lo" and hi: "get_max_co par Y = Inr hi"
    and co: "lo \<le> Co" "Co \<le> hi"
  shows "\<exists>R G B v. 0 \<le> R \<and> R \<le> 4 * par - 1 \<and> 0 \<le> G \<and> G \<le> 4 * par - 1
           \<and> 0 \<le> B \<and> B \<le> 4 * par - 1
           \<and> get_max_cg par Y Co = Inr v \<and> data_px (R, G, B) = (Y, Co, v)"
proof -
  define a where "a = \<bar>Co + 1\<bar> div 2"
  define h where "h = (1 + \<bar>Co + 1\<bar>) div 2"
  define n where "n = 4 * par - 1"
  note ah = half_abs [of "Co + 1", folded a_def h_def]
  note v = get_max_cg_val [OF par Y lo hi co, folded h_def]
  have lov: "lo = (if Y < par - 1 then - 4 - 4 * Y
                   else if Y \<ge> 3 * par then 3 + 4 * (Y - 4 * par) else - 4 * par)"
    using lo get_min_co_val [OF par Y] by simp
  have hiv: "hi = (if Y < par - 1 then 2 + 4 * Y
                   else if Y \<ge> 3 * par then 4 * par - 5 - 4 * (Y - 3 * par) else 4 * par - 2)"
    using hi get_max_co_val [OF par Y] by simp
  define A where "A = 2 * Y"
  define Bv where "Bv = 8 * par - 3 - 2 * Y - 2 * h"
  consider (small) "Y < par - 1 \<or> (par - 1 \<le> Y \<and> Y < 3 * par \<and> A \<le> Bv)"
    | (large) "3 * par \<le> Y \<or> (par - 1 \<le> Y \<and> Y < 3 * par \<and> Bv < A)"
    by linarith
  then show ?thesis
  proof cases
    case small
    have val: "get_max_cg par Y Co = Inr A"
      using v small par Y by (auto simp: A_def Bv_def min_def)
    define p where "p = 2 * Y + 1"
    have bnd: "0 \<le> p - a" "p + h \<le> 4 * par - 1"
      using small co ah par Y unfolding lov hiv A_def Bv_def p_def
      by (auto split: if_splits)
    show ?thesis
    proof (cases "0 \<le> Co + 1")
      case True
      show ?thesis
        by (rule cg_witness [where R = "p + h" and B = "p - a" and G = 0 and p = p,
              OF _ _ _ _ _ _ _ _ _ _ _ _ val])
           (use True bnd ah par Y in \<open>simp_all add: A_def p_def\<close>)
    next
      case False
      show ?thesis
        by (rule cg_witness [where R = "p - a" and B = "p + h" and G = 0 and p = p,
              OF _ _ _ _ _ _ _ _ _ _ _ _ val])
           (use False bnd ah par Y in \<open>simp_all add: A_def p_def\<close>)
    qed
  next
    case large
    have val: "get_max_cg par Y Co = Inr Bv"
      using v large par Y by (auto simp: A_def Bv_def min_def)
    define G where "G = 2 * Y - 4 * par + 1 + h"
    have bnd: "\<bar>Co + 1\<bar> \<le> n" "0 \<le> G" "G \<le> n"
      using large co ah par Y unfolding lov hiv A_def Bv_def G_def n_def
      by (auto split: if_splits)
    show ?thesis
    proof (cases "0 \<le> Co + 1")
      case True
      show ?thesis
        by (rule cg_witness [where R = n and B = "n - (Co + 1)" and G = G and p = "n - h",
              OF _ _ _ _ _ _ _ _ _ _ _ _ val])
           (use True bnd ah par Y in \<open>simp_all add: Bv_def G_def n_def\<close>)
    next
      case False
      show ?thesis
        by (rule cg_witness [where R = "n + (Co + 1)" and B = n and G = G and p = "n - h",
              OF _ _ _ _ _ _ _ _ _ _ _ _ val])
           (use False bnd ah par Y in \<open>simp_all add: Bv_def G_def n_def\<close>)
    qed
  qed
qed

text \<open>
  Claim C4 (tightness of the dependent ranges), as amended: the colour triples range over
  \<open>[0, 4 par - 1]\<close>, the range that the parameter \<open>par\<close> covers; it is the declared range
  when every channel maximum is \<open>4 par - 1\<close>; and \<open>par\<close> is at most \<open>2^28\<close>, so that this
  range ends below \<open>2^30\<close>. For every such \<open>par \<ge> 1\<close> and every \<open>Y\<close> in \<open>[0, 4 par - 1]\<close>,
  some triple has luma \<open>Y\<close> and \<open>Co = get_min_co par Y\<close>, and some triple has luma \<open>Y\<close>
  and \<open>Co = get_max_co par Y\<close>; and for every \<open>Co\<close> between these two, some triple maps to
  \<open>(Y, Co, get_min_cg par Y Co)\<close> and some to \<open>(Y, Co, get_max_cg par Y Co)\<close>.
\<close>

theorem dependent_range_tightness:
  fixes par :: int
  assumes "1 \<le> par" "par \<le> 268435456" "0 \<le> Y" "Y \<le> 4 * par - 1"
  shows "(\<exists>R G B lo Cg. 0 \<le> R \<and> R \<le> 4 * par - 1 \<and> 0 \<le> G \<and> G \<le> 4 * par - 1
            \<and> 0 \<le> B \<and> B \<le> 4 * par - 1
            \<and> get_min_co par Y = Inr lo \<and> data_px (R, G, B) = (Y, lo, Cg))
       \<and> (\<exists>R G B hi Cg. 0 \<le> R \<and> R \<le> 4 * par - 1 \<and> 0 \<le> G \<and> G \<le> 4 * par - 1
            \<and> 0 \<le> B \<and> B \<le> 4 * par - 1
            \<and> get_max_co par Y = Inr hi \<and> data_px (R, G, B) = (Y, hi, Cg))
       \<and> (\<exists>lo hi. get_min_co par Y = Inr lo \<and> get_max_co par Y = Inr hi
            \<and> (\<forall>Co. lo \<le> Co \<and> Co \<le> hi \<longrightarrow>
                 (\<exists>R G B v. 0 \<le> R \<and> R \<le> 4 * par - 1 \<and> 0 \<le> G \<and> G \<le> 4 * par - 1
                    \<and> 0 \<le> B \<and> B \<le> 4 * par - 1
                    \<and> get_min_cg par Y Co = Inr v \<and> data_px (R, G, B) = (Y, Co, v))
               \<and> (\<exists>R G B v. 0 \<le> R \<and> R \<le> 4 * par - 1 \<and> 0 \<le> G \<and> G \<le> 4 * par - 1
                    \<and> 0 \<le> B \<and> B \<le> 4 * par - 1
                    \<and> get_max_cg par Y Co = Inr v \<and> data_px (R, G, B) = (Y, Co, v))))"
proof (intro conjI)
  show "\<exists>R G B lo Cg. 0 \<le> R \<and> R \<le> 4 * par - 1 \<and> 0 \<le> G \<and> G \<le> 4 * par - 1
            \<and> 0 \<le> B \<and> B \<le> 4 * par - 1
            \<and> get_min_co par Y = Inr lo \<and> data_px (R, G, B) = (Y, lo, Cg)"
    using assms by (rule min_co_tight)
  show "\<exists>R G B hi Cg. 0 \<le> R \<and> R \<le> 4 * par - 1 \<and> 0 \<le> G \<and> G \<le> 4 * par - 1
            \<and> 0 \<le> B \<and> B \<le> 4 * par - 1
            \<and> get_max_co par Y = Inr hi \<and> data_px (R, G, B) = (Y, hi, Cg)"
    using assms by (rule max_co_tight)
  obtain lo hi where lo: "get_min_co par Y = Inr lo" and hi: "get_max_co par Y = Inr hi"
    using get_min_co_val [OF assms] get_max_co_val [OF assms] by blast
  show "\<exists>lo hi. get_min_co par Y = Inr lo \<and> get_max_co par Y = Inr hi
            \<and> (\<forall>Co. lo \<le> Co \<and> Co \<le> hi \<longrightarrow>
                 (\<exists>R G B v. 0 \<le> R \<and> R \<le> 4 * par - 1 \<and> 0 \<le> G \<and> G \<le> 4 * par - 1
                    \<and> 0 \<le> B \<and> B \<le> 4 * par - 1
                    \<and> get_min_cg par Y Co = Inr v \<and> data_px (R, G, B) = (Y, Co, v))
               \<and> (\<exists>R G B v. 0 \<le> R \<and> R \<le> 4 * par - 1 \<and> 0 \<le> G \<and> G \<le> 4 * par - 1
                    \<and> 0 \<le> B \<and> B \<le> 4 * par - 1
                    \<and> get_max_cg par Y Co = Inr v \<and> data_px (R, G, B) = (Y, Co, v)))"
    using lo hi min_cg_tight [OF assms lo hi] max_cg_tight [OF assms lo hi] by blast
qed

theorem dependent_range_tightness_witness:
  "(1::int) \<le> 64 \<and> (64::int) \<le> 268435456 \<and> (0::int) \<le> 10 \<and> (10::int) \<le> 4 * 64 - 1
   \<and> get_min_co 64 10 = Inr (- 44) \<and> get_max_co 64 10 = Inr 42
   \<and> (- 44 :: int) \<le> 0 \<and> (0::int) \<le> 42
   \<and> get_min_cg 64 10 0 = Inr (- 22) \<and> get_max_cg 64 10 0 = Inr 20
   \<and> (\<exists>R G B Cg. 0 \<le> R \<and> R \<le> 255 \<and> 0 \<le> G \<and> G \<le> 255 \<and> 0 \<le> B \<and> B \<le> 255
         \<and> data_px (R, G, B) = (10, - 44, Cg))
   \<and> (\<exists>R G B Cg. 0 \<le> R \<and> R \<le> 255 \<and> 0 \<le> G \<and> G \<le> 255 \<and> 0 \<le> B \<and> B \<le> 255
         \<and> data_px (R, G, B) = (10, 42, Cg))
   \<and> (\<exists>R G B. 0 \<le> R \<and> R \<le> 255 \<and> 0 \<le> G \<and> G \<le> 255 \<and> 0 \<le> B \<and> B \<le> 255
         \<and> data_px (R, G, B) = (10, 0, - 22))
   \<and> (\<exists>R G B. 0 \<le> R \<and> R \<le> 255 \<and> 0 \<le> G \<and> G \<le> 255 \<and> 0 \<le> B \<and> B \<le> 255
         \<and> data_px (R, G, B) = (10, 0, 20))"
proof -
  have h: "(1::int) \<le> 64" "(64::int) \<le> 268435456" "(0::int) \<le> 10" "(10::int) \<le> 4 * 64 - 1" by simp_all
  have lo: "get_min_co 64 10 = Inr (- 44)" and hi: "get_max_co 64 10 = Inr 42"
    by (simp_all add: get_min_co_def get_max_co_def get_min_y_def get_max_y_def int32_t_def)
  have cg: "get_min_cg 64 10 0 = Inr (- 22)" "get_max_cg 64 10 0 = Inr 20"
    by (simp_all add: get_min_cg_def get_max_cg_def lo hi get_min_y_def get_max_y_def cdiv_def
          abs32_def int32_t_def)
  from dependent_range_tightness [OF h] lo hi cg
  show ?thesis
    apply simp
    apply (elim conjE)
    apply (drule spec [of _ 0])
    apply simp
    done
qed

text \<open>
  With the declared ranges of the claim the statement fails: for the maxima \<open>(1, 1, 1)\<close>
  the parameter is 1, so \<open>Y = 3\<close> is a value of \<open>[0, 4 par - 1]\<close>, and no triple of
  \<open>[0, 1]\<close> has luma 3.
\<close>

theorem dependent_range_tightness_counterexample:
  "init \<lparr>par = 0, ranges = []\<rparr> [(0, 1), (0, 1), (0, 1)]
     = (True, \<lparr>par = 1, ranges = [(0, 1), (0, 1), (0, 1)]\<rparr>)
   \<and> (0::int) \<le> 3 \<and> (3::int) \<le> 4 * 1 - 1
   \<and> \<not> (\<exists>R G B lo Cg. 0 \<le> R \<and> R \<le> 1 \<and> 0 \<le> G \<and> G \<le> 1 \<and> 0 \<le> B \<and> B \<le> 1
           \<and> get_min_co 1 3 = Inr lo \<and> data_px (R, G, B) = (3, lo, Cg))"
proof -
  have i: "init \<lparr>par = 0, ranges = []\<rparr> [(0, 1), (0, 1), (0, 1)]
     = (True, \<lparr>par = 1, ranges = [(0, 1), (0, 1), (0, 1)]\<rparr>)"
    by (simp add: init_def numPlanes_def range_min_def range_max_def cdiv_def)
  have "fst (data_px (R, G, B)) \<noteq> 3" if "0 \<le> R" "R \<le> 1" "0 \<le> G" "G \<le> 1" "0 \<le> B" "B \<le> 1"
    for R G B :: int
  proof -
    have "(R + B) div 2 \<le> 1" using that by linarith
    then have "((R + B) div 2 + G) div 2 \<le> 1" using that by linarith
    then show ?thesis using data_px_val [OF that] by simp
  qed
  then have "\<not> (\<exists>R G B lo Cg. 0 \<le> R \<and> R \<le> 1 \<and> 0 \<le> G \<and> G \<le> 1 \<and> 0 \<le> B \<and> B \<le> 1
           \<and> get_min_co 1 3 = Inr lo \<and> data_px (R, G, B) = (3, lo, Cg))"
    by (metis fst_conv)
  with i show ?thesis by simp
qed

text \<open>
  The bound on \<open>par\<close> is needed: a luma is the half of an \<open>int\<close>, so it is below \<open>2^30\<close>,
  and for \<open>par = 2^28 + 1\<close> the value \<open>Y = 2^30 + 3\<close> of \<open>[0, 4 par - 1]\<close>, for which
  \<open>get_min_co\<close> returns a bound, is the luma of no triple.
\<close>

lemma luma_below:
  "fst (data_px (R, G, B)) \<le> 1073741823"
proof -
  have "int32_t (shr (int32_t (R + B)) 1 + G) \<le> 2147483647" by (rule int32_t_le)
  then have "int32_t (shr (int32_t (R + B)) 1 + G) div 2 \<le> 1073741823" by linarith
  then show ?thesis by (simp add: data_px_def shr_def Let_def)
qed

lemma par_limit:
  "(0::int) \<le> 1073741827 \<and> (1073741827::int) \<le> 4 * 268435457 - 1
   \<and> get_min_co 268435457 1073741827 = Inr (- 1)
   \<and> \<not> (\<exists>R G B Cg. data_px (R, G, B) = (1073741827, - 1, Cg))"
proof -
  have "data_px (R, G, B) \<noteq> (1073741827, - 1, Cg)" for R G B Cg
    using luma_below [of R G B] by auto
  then show ?thesis
    by (simp add: get_min_co_def get_min_y_def get_max_y_def int32_t_def)
qed
section \<open>Properties of the context tree\<close>

subsection \<open>Steps of \<open>read_subtree\<close>\<close>

lemma read_subtree_oob:
  "length t \<le> pos \<Longrightarrow> read_subtree rd nb mc xc (Suc fuel) pos sr t c = Some (Inl OutOfBounds)"
  by simp

lemma read_subtree_leaf:
  assumes "pos < length t" "rd c 0 (int nb) = (v, c1)" "int8_t (v - 1) = - 1"
  shows "read_subtree rd nb mc xc (Suc fuel) pos sr t c
    = Some (Inr (True, [Leaf_visit pos], sr, t[pos := (t ! pos)\<lparr>property := - 1\<rparr>], c1))"
  using assms by simp

lemma read_subtree_range_oob:
  assumes "pos < length t" "rd c 0 (int nb) = (v, c1)" "int8_t (v - 1) \<noteq> - 1"
    "int8_t (v - 1) < 0 \<or> length sr \<le> nat (int8_t (v - 1))"
  shows "read_subtree rd nb mc xc (Suc fuel) pos sr t c = Some (Inl OutOfBounds)"
  using assms by (simp add: Let_def)

lemma read_subtree_invalid:
  assumes "pos < length t" "rd c 0 (int nb) = (v, c1)" "p = int8_t (v - 1)" "p \<noteq> - 1"
    "0 \<le> p" "nat p < length sr" "snd (sr ! nat p) \<le> fst (sr ! nat p)"
  shows "read_subtree rd nb mc xc (Suc fuel) pos sr t c
    = Some (Inr (False, [Inner_visit pos p (fst (sr ! nat p)) (snd (sr ! nat p)) (length t)], sr,
                 t[pos := (t ! pos)\<lparr>property := p\<rparr>], c1))"
  using assms by (simp add: Let_def)

lemma read_subtree_inner:
  assumes "pos < length t" "rd c 0 (int nb) = (v, c1)" "p = int8_t (v - 1)" "p \<noteq> - 1"
    "0 \<le> p" "nat p < length sr" "fst (sr ! nat p) < snd (sr ! nat p)"
    "rd c1 mc xc = (cnt, c2)" "rd c2 (fst (sr ! nat p)) (snd (sr ! nat p) - 1) = (sv, c3)"
  shows "read_subtree rd nb mc xc (Suc fuel) pos sr t c
    = (case read_subtree rd nb mc xc fuel (length t) (sr[nat p := (sv + 1, snd (sr ! nat p))])
         (t[pos := (t ! pos)\<lparr>property := p, count := int16_t cnt, splitval := sv,
                              childID := length t\<rparr>]
          @ [PropertyDecisionNode_default, PropertyDecisionNode_default]) c3 of
         None \<Rightarrow> None
       | Some (Inl e) \<Rightarrow> Some (Inl e)
       | Some (Inr (ok1, vs1, sr2, t3, c4)) \<Rightarrow>
           if \<not> ok1
             then Some (Inr (False,
                    Inner_visit pos p (fst (sr ! nat p)) (snd (sr ! nat p)) (length t) # vs1,
                    sr2, t3, c4))
           else
             (case read_subtree rd nb mc xc fuel (length t + 1)
                     (sr2[nat p := (fst (sr ! nat p), sv)]) t3 c4 of
                None \<Rightarrow> None
              | Some (Inl e) \<Rightarrow> Some (Inl e)
              | Some (Inr (ok2, vs2, sr4, t4, c5)) \<Rightarrow>
                  if \<not> ok2
                    then Some (Inr (False,
                           Inner_visit pos p (fst (sr ! nat p)) (snd (sr ! nat p)) (length t)
                             # vs1 @ vs2, sr4, t4, c5))
                  else Some (Inr (True,
                           Inner_visit pos p (fst (sr ! nat p)) (snd (sr ! nat p)) (length t)
                             # vs1 @ vs2,
                           sr4[nat p := (fst (sr4 ! nat p), snd (sr ! nat p))], t4, c5))))"
  using assms(1,2,4-) unfolding assms(3)
  by (simp add: Let_def cong: option.case_cong sum.case_cong prod.case_cong if_cong)


declare read_subtree.simps [simp del]

lemma read_subtree_0: "read_subtree rd nb mc xc 0 pos sr t c = None"
  by (simp add: read_subtree.simps)

lemma read_subtree_result_induct [consumes 1, case_names Leaf Invalid Fail1 Fail2 Both]:
  fixes P :: "nat \<Rightarrow> Ranges \<Rightarrow> Tree \<Rightarrow> 'c \<Rightarrow> bool \<times> visit list \<times> Ranges \<times> Tree \<times> 'c \<Rightarrow> bool"
  assumes run: "read_subtree rd nb mc xc fuel pos sr t c = Some (Inr r)"
    and Leaf: "\<And>pos sr t c v c1.
      \<lbrakk>pos < length t; rd c 0 (int nb) = (v, c1); int8_t (v - 1) = - 1\<rbrakk>
      \<Longrightarrow> P pos sr t c (True, [Leaf_visit pos], sr, t[pos := (t ! pos)\<lparr>property := - 1\<rparr>], c1)"
    and Invalid: "\<And>pos sr t c v c1 p.
      \<lbrakk>pos < length t; rd c 0 (int nb) = (v, c1); p = int8_t (v - 1); p \<noteq> - 1; 0 \<le> p;
       nat p < length sr; snd (sr ! nat p) \<le> fst (sr ! nat p)\<rbrakk>
      \<Longrightarrow> P pos sr t c
            (False, [Inner_visit pos p (fst (sr ! nat p)) (snd (sr ! nat p)) (length t)], sr,
             t[pos := (t ! pos)\<lparr>property := p\<rparr>], c1)"
    and Fail1: "\<And>pos sr t c v c1 p cnt c2 sv c3 sr1 t2 vs1 sr2 t3 c4 fuel.
      \<lbrakk>pos < length t; rd c 0 (int nb) = (v, c1); p = int8_t (v - 1); p \<noteq> - 1; 0 \<le> p;
       nat p < length sr; fst (sr ! nat p) < snd (sr ! nat p);
       rd c1 mc xc = (cnt, c2); rd c2 (fst (sr ! nat p)) (snd (sr ! nat p) - 1) = (sv, c3);
       sr1 = sr[nat p := (sv + 1, snd (sr ! nat p))];
       t2 = t[pos := (t ! pos)\<lparr>property := p, count := int16_t cnt, splitval := sv,
                                 childID := length t\<rparr>]
            @ [PropertyDecisionNode_default, PropertyDecisionNode_default];
       read_subtree rd nb mc xc fuel (length t) sr1 t2 c3 = Some (Inr (False, vs1, sr2, t3, c4));
       P (length t) sr1 t2 c3 (False, vs1, sr2, t3, c4)\<rbrakk>
      \<Longrightarrow> P pos sr t c
            (False, Inner_visit pos p (fst (sr ! nat p)) (snd (sr ! nat p)) (length t) # vs1,
             sr2, t3, c4)"
    and Fail2: "\<And>pos sr t c v c1 p cnt c2 sv c3 sr1 t2 vs1 sr2 t3 c4 sr3 vs2 sr4 t4 c5 fuel.
      \<lbrakk>pos < length t; rd c 0 (int nb) = (v, c1); p = int8_t (v - 1); p \<noteq> - 1; 0 \<le> p;
       nat p < length sr; fst (sr ! nat p) < snd (sr ! nat p);
       rd c1 mc xc = (cnt, c2); rd c2 (fst (sr ! nat p)) (snd (sr ! nat p) - 1) = (sv, c3);
       sr1 = sr[nat p := (sv + 1, snd (sr ! nat p))];
       t2 = t[pos := (t ! pos)\<lparr>property := p, count := int16_t cnt, splitval := sv,
                                 childID := length t\<rparr>]
            @ [PropertyDecisionNode_default, PropertyDecisionNode_default];
       read_subtree rd nb mc xc fuel (length t) sr1 t2 c3 = Some (Inr (True, vs1, sr2, t3, c4));
       P (length t) sr1 t2 c3 (True, vs1, sr2, t3, c4);
       sr3 = sr2[nat p := (fst (sr ! nat p), sv)];
       read_subtree rd nb mc xc fuel (length t + 1) sr3 t3 c4
         = Some (Inr (False, vs2, sr4, t4, c5));
       P (length t + 1) sr3 t3 c4 (False, vs2, sr4, t4, c5)\<rbrakk>
      \<Longrightarrow> P pos sr t c
            (False,
             Inner_visit pos p (fst (sr ! nat p)) (snd (sr ! nat p)) (length t) # vs1 @ vs2,
             sr4, t4, c5)"
    and Both: "\<And>pos sr t c v c1 p cnt c2 sv c3 sr1 t2 vs1 sr2 t3 c4 sr3 vs2 sr4 t4 c5 fuel.
      \<lbrakk>pos < length t; rd c 0 (int nb) = (v, c1); p = int8_t (v - 1); p \<noteq> - 1; 0 \<le> p;
       nat p < length sr; fst (sr ! nat p) < snd (sr ! nat p);
       rd c1 mc xc = (cnt, c2); rd c2 (fst (sr ! nat p)) (snd (sr ! nat p) - 1) = (sv, c3);
       sr1 = sr[nat p := (sv + 1, snd (sr ! nat p))];
       t2 = t[pos := (t ! pos)\<lparr>property := p, count := int16_t cnt, splitval := sv,
                                 childID := length t\<rparr>]
            @ [PropertyDecisionNode_default, PropertyDecisionNode_default];
       read_subtree rd nb mc xc fuel (length t) sr1 t2 c3 = Some (Inr (True, vs1, sr2, t3, c4));
       P (length t) sr1 t2 c3 (True, vs1, sr2, t3, c4);
       sr3 = sr2[nat p := (fst (sr ! nat p), sv)];
       read_subtree rd nb mc xc fuel (length t + 1) sr3 t3 c4
         = Some (Inr (True, vs2, sr4, t4, c5));
       P (length t + 1) sr3 t3 c4 (True, vs2, sr4, t4, c5)\<rbrakk>
      \<Longrightarrow> P pos sr t c
            (True,
             Inner_visit pos p (fst (sr ! nat p)) (snd (sr ! nat p)) (length t) # vs1 @ vs2,
             sr4[nat p := (fst (sr4 ! nat p), snd (sr ! nat p))], t4, c5)"
  shows "P pos sr t c r"
  using run
proof (induction fuel arbitrary: pos sr t c r)
  case 0
  then show ?case by (simp add: read_subtree_0)
next
  case (Suc fuel)
  note run = Suc.prems
  show ?case
  proof (cases "length t \<le> pos")
    case True
    with run show ?thesis by (simp add: read_subtree_oob)
  next
    case False
    then have pos: "pos < length t" by simp
    obtain v c1 where rd1: "rd c 0 (int nb) = (v, c1)" by (cases "rd c 0 (int nb)")
    define p where "p = int8_t (v - 1)"
    show ?thesis
    proof (cases "p = - 1")
      case True
      then have e: "int8_t (v - 1) = - 1" by (simp add: p_def)
      from run have "r = (True, [Leaf_visit pos], sr, t[pos := (t ! pos)\<lparr>property := - 1\<rparr>], c1)"
        by (simp add: read_subtree_leaf [where rd = rd and c = c, OF pos rd1 e])
      then show ?thesis using Leaf [OF pos rd1 e] by simp
    next
      case pne: False
      show ?thesis
      proof (cases "p < 0 \<or> length sr \<le> nat p")
        case True
        with run pne show ?thesis
          using read_subtree_range_oob [where rd = rd and c = c and sr = sr and nb = nb and mc = mc and xc = xc and fuel = fuel, OF pos rd1] by (simp add: p_def)
      next
        case False
        then have p0: "0 \<le> p" "nat p < length sr" by simp_all
        show ?thesis
        proof (cases "fst (sr ! nat p) < snd (sr ! nat p)")
          case False
          then have le: "snd (sr ! nat p) \<le> fst (sr ! nat p)" by simp
          from run have "r = (False, [Inner_visit pos p (fst (sr ! nat p)) (snd (sr ! nat p)) (length t)],
                              sr, t[pos := (t ! pos)\<lparr>property := p\<rparr>], c1)"
            by (simp add: read_subtree_invalid [where rd = rd and c = c, OF pos rd1 p_def pne p0 le])
          then show ?thesis using Invalid [OF pos rd1 p_def pne p0 le] by simp
        next
          case lt: True
          obtain cnt c2 where rd2: "rd c1 mc xc = (cnt, c2)" by (cases "rd c1 mc xc")
          obtain sv c3 where rd3: "rd c2 (fst (sr ! nat p)) (snd (sr ! nat p) - 1) = (sv, c3)"
            by (cases "rd c2 (fst (sr ! nat p)) (snd (sr ! nat p) - 1)")
          define sr1 where "sr1 = sr[nat p := (sv + 1, snd (sr ! nat p))]"
          define t2 where "t2 = t[pos := (t ! pos)\<lparr>property := p, count := int16_t cnt,
                                    splitval := sv, childID := length t\<rparr>]
               @ [PropertyDecisionNode_default, PropertyDecisionNode_default]"
          note step = read_subtree_inner [where rd = rd and c = c and fuel = fuel, OF pos rd1 p_def pne p0 lt rd2 rd3,
              folded sr1_def t2_def]
          show ?thesis
          proof (cases "read_subtree rd nb mc xc fuel (length t) sr1 t2 c3")
            case None
            with run step show ?thesis by simp
          next
            case (Some x)
            show ?thesis
            proof (cases x)
              case (Inl e)
              with run step Some show ?thesis by simp
            next
              case (Inr r1)
              obtain ok1 vs1 sr2 t3 c4 where r1: "r1 = (ok1, vs1, sr2, t3, c4)"
                by (cases r1)
              have call1: "read_subtree rd nb mc xc fuel (length t) sr1 t2 c3
                             = Some (Inr (ok1, vs1, sr2, t3, c4))"
                using Some Inr r1 by simp
              have P1: "P (length t) sr1 t2 c3 (ok1, vs1, sr2, t3, c4)"
                by (rule Suc.IH [OF call1])
              show ?thesis
              proof (cases ok1)
                case False
                with run step call1
                have "r = (False,
                    Inner_visit pos p (fst (sr ! nat p)) (snd (sr ! nat p)) (length t) # vs1,
                    sr2, t3, c4)" by simp
                then show ?thesis
                  using Fail1 [OF pos rd1 p_def pne p0 lt rd2 rd3 sr1_def t2_def] call1 P1 False
                  by simp
              next
                case ok1: True
                define sr3 where "sr3 = sr2[nat p := (fst (sr ! nat p), sv)]"
                show ?thesis
                proof (cases "read_subtree rd nb mc xc fuel (length t + 1) sr3 t3 c4")
                  case None
                  with run step call1 ok1 show ?thesis by (simp add: sr3_def)
                next
                  case (Some y)
                  show ?thesis
                  proof (cases y)
                    case (Inl e)
                    with run step call1 ok1 Some show ?thesis by (simp add: sr3_def)
                  next
                    case (Inr r2)
                    obtain ok2 vs2 sr4 t4 c5 where r2: "r2 = (ok2, vs2, sr4, t4, c5)"
                      by (cases r2)
                    have call2: "read_subtree rd nb mc xc fuel (length t + 1) sr3 t3 c4
                                   = Some (Inr (ok2, vs2, sr4, t4, c5))"
                      using Some Inr r2 by simp
                    have P2: "P (length t + 1) sr3 t3 c4 (ok2, vs2, sr4, t4, c5)"
                      by (rule Suc.IH [OF call2])
                    show ?thesis
                    proof (cases ok2)
                      case False
                      with run step call1 ok1 call2
                      have "r = (False,
                          Inner_visit pos p (fst (sr ! nat p)) (snd (sr ! nat p)) (length t)
                            # vs1 @ vs2, sr4, t4, c5)" by (simp add: sr3_def)
                      then show ?thesis
                        using Fail2 [OF pos rd1 p_def pne p0 lt rd2 rd3 sr1_def t2_def _ _ sr3_def]
                          call1 P1 ok1 call2 P2 False
                        by simp
                    next
                      case True
                      with run step call1 ok1 call2
                      have "r = (True,
                          Inner_visit pos p (fst (sr ! nat p)) (snd (sr ! nat p)) (length t)
                            # vs1 @ vs2,
                          sr4[nat p := (fst (sr4 ! nat p), snd (sr ! nat p))], t4, c5)"
                        by (simp add: sr3_def)
                      then show ?thesis
                        using Both [OF pos rd1 p_def pne p0 lt rd2 rd3 sr1_def t2_def _ _ sr3_def]
                          call1 P1 ok1 call2 P2 True
                        by simp
                    qed
                  qed
                qed
              qed
            qed
          qed
        qed
      qed
    qed
  qed
qed

subsection \<open>Frame and termination of \<open>read_subtree\<close>\<close>

lemma read_subtree_frame:
  assumes "read_subtree rd nb mc xc fuel pos sr t c = Some (Inr r)"
  shows "case r of (ok, vs, sr', t', c') \<Rightarrow>
           length sr' = length sr \<and> (ok \<longrightarrow> sr' = sr)
           \<and> length t \<le> length t' \<and> (\<forall>i < length t. i \<noteq> pos \<longrightarrow> t' ! i = t ! i)"
  using assms
proof (induct rule: read_subtree_result_induct)
  case (Leaf pos sr t c v c1)
  then show ?case by simp
next
  case (Invalid pos sr t c v c1 p)
  then show ?case by simp
next
  case (Fail1 pos sr t c v c1 p cnt c2 sv c3 sr1 t2 vs1 sr2 t3 c4 fuel)
  from Fail1(13) have ih: "length sr2 = length sr1" "length t2 \<le> length t3"
    "\<forall>i < length t2. i \<noteq> length t \<longrightarrow> t3 ! i = t2 ! i" by simp_all
  have l: "length sr1 = length sr" "length t2 = length t + 2"
    "\<forall>i < length t. i \<noteq> pos \<longrightarrow> t2 ! i = t ! i"
    by (simp_all add: Fail1(10,11) nth_append)
  from ih l show ?case by simp
next
  case (Fail2 pos sr t c v c1 p cnt c2 sv c3 sr1 t2 vs1 sr2 t3 c4 sr3 vs2 sr4 t4 c5 fuel)
  from Fail2(13) have ih: "length sr2 = length sr1" "length t2 \<le> length t3"
    "\<forall>i < length t2. i \<noteq> length t \<longrightarrow> t3 ! i = t2 ! i" by simp_all
  from Fail2(16) have ih2: "length sr4 = length sr3" "length t3 \<le> length t4"
    "\<forall>i < length t3. i \<noteq> length t + 1 \<longrightarrow> t4 ! i = t3 ! i" by simp_all
  have l: "length sr1 = length sr" "length t2 = length t + 2"
    "\<forall>i < length t. i \<noteq> pos \<longrightarrow> t2 ! i = t ! i" "length sr3 = length sr2"
    by (simp_all add: Fail2(10,11,14) nth_append)
  from ih ih2 l show ?case by simp
next
  case (Both pos sr t c v c1 p cnt c2 sv c3 sr1 t2 vs1 sr2 t3 c4 sr3 vs2 sr4 t4 c5 fuel)
  from Both(13) have ih: "sr2 = sr1" "length t2 \<le> length t3"
    "\<forall>i < length t2. i \<noteq> length t \<longrightarrow> t3 ! i = t2 ! i" by simp_all
  from Both(16) have ih2: "sr4 = sr3" "length t3 \<le> length t4"
    "\<forall>i < length t3. i \<noteq> length t + 1 \<longrightarrow> t4 ! i = t3 ! i" by simp_all
  have l: "length t2 = length t + 2" "\<forall>i < length t. i \<noteq> pos \<longrightarrow> t2 ! i = t ! i"
    by (simp_all add: Both(11) nth_append)
  have "sr4[nat p := (fst (sr4 ! nat p), snd (sr ! nat p))] = sr"
    unfolding ih ih2 Both(14) Both(10) using Both(6) by simp
  with ih ih2 l show ?case by simp
qed

lemma read_subtree_restores:
  "read_subtree rd nb mc xc fuel pos sr t c = Some (Inr (True, vs, sr', t', c')) \<Longrightarrow> sr' = sr"
  by (drule read_subtree_frame) simp

lemma range_width_update:
  assumes "i < length sr" "nat (snd x - fst x) < nat (snd (sr ! i) - fst (sr ! i))"
  shows "range_width (sr[i := x]) < range_width sr"
proof -
  let ?f = "\<lambda>r :: int \<times> int. nat (snd r - fst r)"
  define a where "a = ?f (sr ! i)"
  define b where "b = ?f x"
  have "map ?f sr ! i \<le> sum_list (map ?f sr)"
    by (rule elem_le_sum_list) (simp add: assms(1))
  then have le: "a \<le> range_width sr"
    using assms(1) by (simp add: range_width_def a_def)
  have eq: "range_width (sr[i := x]) = range_width sr + b - a"
    using assms(1) by (simp add: range_width_def map_update sum_list_update a_def b_def)
  have "b < a" using assms(2) by (simp only: a_def b_def)
  with le show ?thesis unfolding eq by linarith
qed


lemma int8_t_id: "- 128 \<le> x \<Longrightarrow> x \<le> 127 \<Longrightarrow> int8_t x = x"
  by (simp add: int8_t_def)

lemma int16_t_id: "- 32768 \<le> x \<Longrightarrow> x \<le> 32767 \<Longrightarrow> int16_t x = x"
  by (simp add: int16_t_def)

lemma reads_in_rangeD:
  assumes "reads_in_range rd" "rd c lo hi = (v, c')" "lo \<le> hi"
  shows "lo \<le> v" "v \<le> hi"
  using assms unfolding reads_in_range_def by (metis fst_conv)+

lemma read_subtree_total:
  assumes ok: "reads_in_range rd" and nb: "nb \<le> 128"
  shows "length sr = nb \<Longrightarrow> pos < length t \<Longrightarrow> range_width sr < fuel
    \<Longrightarrow> \<exists>r. read_subtree rd nb mc xc fuel pos sr t c = Some (Inr r)"
proof (induction fuel arbitrary: pos sr t c)
  case 0
  then show ?case by simp
next
  case (Suc fuel)
  note len = Suc.prems(1) and pos = Suc.prems(2) and w = Suc.prems(3)
  obtain v c1 where rd1: "rd c 0 (int nb) = (v, c1)" by (cases "rd c 0 (int nb)")
  have v: "0 \<le> v" "v \<le> int nb" using reads_in_rangeD [OF ok rd1] by simp_all
  define p where "p = int8_t (v - 1)"
  have pv: "p = v - 1" unfolding p_def using v nb by (intro int8_t_id) simp_all
  show ?case
  proof (cases "p = - 1")
    case True
    then have e: "int8_t (v - 1) = - 1" by (simp add: p_def)
    show ?thesis
      unfolding read_subtree_leaf [where rd = rd and c = c, OF pos rd1 e] by blast
  next
    case pne: False
    have p0: "0 \<le> p" "nat p < length sr" using pne pv v len by simp_all
    show ?thesis
    proof (cases "fst (sr ! nat p) < snd (sr ! nat p)")
      case False
      then have le: "snd (sr ! nat p) \<le> fst (sr ! nat p)" by simp
      show ?thesis
        unfolding read_subtree_invalid [where rd = rd and c = c, OF pos rd1 p_def pne p0 le]
        by blast
    next
      case lt: True
      obtain cnt c2 where rd2: "rd c1 mc xc = (cnt, c2)" by (cases "rd c1 mc xc")
      obtain sv c3 where rd3: "rd c2 (fst (sr ! nat p)) (snd (sr ! nat p) - 1) = (sv, c3)"
        by (cases "rd c2 (fst (sr ! nat p)) (snd (sr ! nat p) - 1)")
      have sv: "fst (sr ! nat p) \<le> sv" "sv \<le> snd (sr ! nat p) - 1"
        using reads_in_rangeD [OF ok rd3] lt by simp_all
      define sr1 where "sr1 = sr[nat p := (sv + 1, snd (sr ! nat p))]"
      define t2 where "t2 = t[pos := (t ! pos)\<lparr>property := p, count := int16_t cnt,
                                splitval := sv, childID := length t\<rparr>]
           @ [PropertyDecisionNode_default, PropertyDecisionNode_default]"
      note step = read_subtree_inner [where rd = rd and c = c and fuel = fuel,
          OF pos rd1 p_def pne p0 lt rd2 rd3, folded sr1_def t2_def]
      have w1: "range_width sr1 < fuel"
      proof -
        have "range_width sr1 < range_width sr"
          unfolding sr1_def using p0(2) sv lt by (intro range_width_update) simp_all
        with w show ?thesis by simp
      qed
      have "\<exists>r. read_subtree rd nb mc xc fuel (length t) sr1 t2 c3 = Some (Inr r)"
        by (rule Suc.IH) (simp_all add: sr1_def t2_def len w1 [unfolded sr1_def])
      then obtain ok1 vs1 sr2 t3 c4
        where call1: "read_subtree rd nb mc xc fuel (length t) sr1 t2 c3
                        = Some (Inr (ok1, vs1, sr2, t3, c4))"
        by (metis prod_cases5)
      show ?thesis
      proof (cases ok1)
        case False
        with step call1
        have "read_subtree rd nb mc xc (Suc fuel) pos sr t c
          = Some (Inr (False,
              Inner_visit pos p (fst (sr ! nat p)) (snd (sr ! nat p)) (length t) # vs1,
              sr2, t3, c4))" by simp
        then show ?thesis by blast
      next
        case True
        from read_subtree_frame [OF call1] True
        have fr: "sr2 = sr1" "length t2 \<le> length t3" by simp_all
        define sr3 where "sr3 = sr2[nat p := (fst (sr ! nat p), sv)]"
        have sr3: "sr3 = sr[nat p := (fst (sr ! nat p), sv)]"
          by (simp add: sr3_def fr sr1_def)
        have w3: "range_width sr3 < fuel"
        proof -
          have "range_width sr3 < range_width sr"
            unfolding sr3 using p0(2) sv lt by (intro range_width_update) simp_all
          with w show ?thesis by simp
        qed
        have "\<exists>r. read_subtree rd nb mc xc fuel (length t + 1) sr3 t3 c4 = Some (Inr r)"
        proof (rule Suc.IH)
          show "length sr3 = nb" by (simp add: sr3 len)
          show "length t + 1 < length t3" using fr(2) by (simp add: t2_def)
          show "range_width sr3 < fuel" by (rule w3)
        qed
        then obtain ok2 vs2 sr4 t4 c5
          where call2: "read_subtree rd nb mc xc fuel (length t + 1) sr3 t3 c4
                          = Some (Inr (ok2, vs2, sr4, t4, c5))"
          by (metis prod_cases5)
        from step call1 True call2
        have "read_subtree rd nb mc xc (Suc fuel) pos sr t c
          = Some (Inr (ok2,
              Inner_visit pos p (fst (sr ! nat p)) (snd (sr ! nat p)) (length t) # vs1 @ vs2,
              if ok2 then sr4[nat p := (fst (sr4 ! nat p), snd (sr ! nat p))] else sr4, t4, c5))"
          by (simp add: sr3_def)
        then show ?thesis by blast
      qed
    qed
  qed
qed

subsection \<open>The nodes visited\<close>

lemma read_subtree_invalid_visit:
  assumes "read_subtree rd nb mc xc fuel pos sr t c = Some (Inr r)"
  shows "case r of (ok, vs, sr', t', c') \<Rightarrow>
           (\<not> ok) = (\<exists>e \<in> set vs. \<exists>q p lo hi sz.
                          e = Inner_visit q p lo hi sz \<and> p \<noteq> - 1 \<and> hi \<le> lo)"
  using assms
proof (induct rule: read_subtree_result_induct)
  case (Leaf pos sr t c v c1)
  show ?case by simp
next
  case (Invalid pos sr t c v c1 p)
  from Invalid(4,7) show ?case by simp
next
  case (Fail1 pos sr t c v c1 p cnt c2 sv c3 sr1 t2 vs1 sr2 t3 c4 fuel)
  let ?inv = "\<lambda>e. \<exists>q p lo hi sz. e = Inner_visit q p lo hi sz \<and> p \<noteq> - 1 \<and> hi \<le> lo"
  from Fail1(13) obtain e where e: "e \<in> set vs1" "?inv e" by auto
  then have "\<exists>e \<in> set (Inner_visit pos p (fst (sr ! nat p)) (snd (sr ! nat p)) (length t) # vs1).
      ?inv e"
    by (intro bexI [of _ e]) simp_all
  then show ?case by simp
next
  case (Fail2 pos sr t c v c1 p cnt c2 sv c3 sr1 t2 vs1 sr2 t3 c4 sr3 vs2 sr4 t4 c5 fuel)
  let ?inv = "\<lambda>e. \<exists>q p lo hi sz. e = Inner_visit q p lo hi sz \<and> p \<noteq> - 1 \<and> hi \<le> lo"
  from Fail2(16) obtain e where e: "e \<in> set vs2" "?inv e" by auto
  then have "\<exists>e \<in> set (Inner_visit pos p (fst (sr ! nat p)) (snd (sr ! nat p)) (length t)
                            # vs1 @ vs2). ?inv e"
    by (intro bexI [of _ e]) simp_all
  then show ?case by simp
next
  case (Both pos sr t c v c1 p cnt c2 sv c3 sr1 t2 vs1 sr2 t3 c4 sr3 vs2 sr4 t4 c5 fuel)
  let ?inv = "\<lambda>e. \<exists>q p lo hi sz. e = Inner_visit q p lo hi sz \<and> p \<noteq> - 1 \<and> hi \<le> lo"
  from Both(13) have a: "\<forall>e \<in> set vs1. \<not> ?inv e" by simp
  from Both(16) have b: "\<forall>e \<in> set vs2. \<not> ?inv e" by simp
  have h: "\<not> ?inv (Inner_visit pos p (fst (sr ! nat p)) (snd (sr ! nat p)) (length t))"
    using Both(7) by simp
  have "\<forall>e \<in> set (Inner_visit pos p (fst (sr ! nat p)) (snd (sr ! nat p)) (length t)
                            # vs1 @ vs2). \<not> ?inv e"
    using a b h by (simp only: set_simps set_append ball_simps ball_Un) blast
  then show ?case by simp
qed

lemma visit_decoded_mono:
  assumes "visit_decoded mc xc n t e" "length t \<le> length t'" "t' ! visit_pos e = t ! visit_pos e"
    "n' \<le> n"
  shows "visit_decoded mc xc n' t' e"
  using assms by (cases e) (auto simp: visit_decoded_def)

lemma read_subtree_visits:
  assumes "read_subtree rd nb mc xc fuel pos sr t c = Some (Inr r)"
    and ok: "reads_in_range rd" and mx: "mc \<le> xc" "- 32768 \<le> mc" "xc \<le> 32767"
  shows "case r of (ok, vs, sr', t', c') \<Rightarrow>
           (\<forall>e \<in> set vs. (visit_pos e = pos \<or> length t \<le> visit_pos e) \<and> visit_pos e < length t')
           \<and> (ok \<longrightarrow> (\<forall>e \<in> set vs. visit_decoded mc xc (length t) t' e))"
  using assms(1)
proof (induct rule: read_subtree_result_induct)
  case (Leaf pos sr t c v c1)
  then show ?case by (simp add: visit_decoded_def)
next
  case (Invalid pos sr t c v c1 p)
  then show ?case by simp
next
  case (Fail1 pos sr t c v c1 p cnt c2 sv c3 sr1 t2 vs1 sr2 t3 c4 fuel)
  from read_subtree_frame [OF Fail1(12)]
  have f1: "length t2 \<le> length t3" by simp
  have l: "length t2 = length t + 2" by (simp add: Fail1(11))
  from Fail1(13) have ih: "\<forall>e \<in> set vs1. (visit_pos e = length t \<or> length t2 \<le> visit_pos e)
      \<and> visit_pos e < length t3" by simp
  have "\<forall>e \<in> set vs1. (visit_pos e = pos \<or> length t \<le> visit_pos e) \<and> visit_pos e < length t3"
    using ih l by auto
  with Fail1(1) f1 l show ?case by simp
next
  case (Fail2 pos sr t c v c1 p cnt c2 sv c3 sr1 t2 vs1 sr2 t3 c4 sr3 vs2 sr4 t4 c5 fuel)
  from read_subtree_frame [OF Fail2(12)]
  have f1: "length t2 \<le> length t3" by simp
  from read_subtree_frame [OF Fail2(15)]
  have f2: "length t3 \<le> length t4" by simp
  have l: "length t2 = length t + 2" by (simp add: Fail2(11))
  from Fail2(13) have ih: "\<forall>e \<in> set vs1. (visit_pos e = length t \<or> length t2 \<le> visit_pos e)
      \<and> visit_pos e < length t3" by simp
  from Fail2(16) have ih2: "\<forall>e \<in> set vs2. (visit_pos e = length t + 1 \<or> length t3 \<le> visit_pos e)
      \<and> visit_pos e < length t4" by simp
  have a: "\<forall>e \<in> set vs1. (visit_pos e = pos \<or> length t \<le> visit_pos e) \<and> visit_pos e < length t4"
    using ih l f2 by auto
  have b: "\<forall>e \<in> set vs2. (visit_pos e = pos \<or> length t \<le> visit_pos e) \<and> visit_pos e < length t4"
    using ih2 l f1 by auto
  from a b Fail2(1) f1 f2 l show ?case by auto
next
  case (Both pos sr t c v c1 p cnt c2 sv c3 sr1 t2 vs1 sr2 t3 c4 sr3 vs2 sr4 t4 c5 fuel)
  from read_subtree_frame [OF Both(12)]
  have f1: "length t2 \<le> length t3" "\<forall>i < length t2. i \<noteq> length t \<longrightarrow> t3 ! i = t2 ! i"
    by simp_all
  from read_subtree_frame [OF Both(15)]
  have f2: "length t3 \<le> length t4" "\<forall>i < length t3. i \<noteq> length t + 1 \<longrightarrow> t4 ! i = t3 ! i"
    by simp_all
  have l: "length t2 = length t + 2" by (simp add: Both(11))
  from Both(13) have ih: "\<forall>e \<in> set vs1. (visit_pos e = length t \<or> length t2 \<le> visit_pos e)
      \<and> visit_pos e < length t3"
    and d1: "\<forall>e \<in> set vs1. visit_decoded mc xc (length t2) t3 e" by simp_all
  from Both(16) have ih2: "\<forall>e \<in> set vs2. (visit_pos e = length t + 1 \<or> length t3 \<le> visit_pos e)
      \<and> visit_pos e < length t4"
    and d2: "\<forall>e \<in> set vs2. visit_decoded mc xc (length t3) t4 e" by simp_all
  have a: "\<forall>e \<in> set vs1. (visit_pos e = pos \<or> length t \<le> visit_pos e) \<and> visit_pos e < length t4"
    using ih l f2 by auto
  have b: "\<forall>e \<in> set vs2. (visit_pos e = pos \<or> length t \<le> visit_pos e) \<and> visit_pos e < length t4"
    using ih2 l f1 by auto
  have da: "visit_decoded mc xc (length t) t4 e" if e: "e \<in> set vs1" for e
  proof (rule visit_decoded_mono)
    show "visit_decoded mc xc (length t2) t3 e" using d1 e by blast
    show "length t3 \<le> length t4" by (rule f2)
    show "length t \<le> length t2" using l by simp
    have "visit_pos e < length t3" "visit_pos e \<noteq> length t + 1" using ih e l by auto
    then show "t4 ! visit_pos e = t3 ! visit_pos e" using f2(2) by blast
  qed
  have db: "visit_decoded mc xc (length t) t4 e" if e: "e \<in> set vs2" for e
  proof (rule visit_decoded_mono)
    show "visit_decoded mc xc (length t3) t4 e" using d2 e by blast
    show "length t \<le> length t3" using l f1 by simp
  qed simp_all
  have cnt: "mc \<le> cnt" "cnt \<le> xc" using reads_in_rangeD [OF ok Both(8) mx(1)] by simp_all
  then have cnt16: "int16_t cnt = cnt" using mx by (intro int16_t_id) simp_all
  have sv: "fst (sr ! nat p) \<le> sv" "sv \<le> snd (sr ! nat p) - 1"
    using reads_in_rangeD [OF ok Both(9)] Both(7) by simp_all
  have "t4 ! pos = t3 ! pos" using f2 f1 l Both(1) by simp
  also have "\<dots> = t2 ! pos" using f1 l Both(1) by simp
  also have "\<dots> = (t ! pos)\<lparr>property := p, count := int16_t cnt, splitval := sv,
                               childID := length t\<rparr>"
    using Both(1) by (simp add: Both(11) nth_append)
  finally have node: "t4 ! pos = (t ! pos)\<lparr>property := p, count := cnt, splitval := sv,
                               childID := length t\<rparr>"
    by (simp add: cnt16)
  have here: "visit_decoded mc xc (length t) t4
                (Inner_visit pos p (fst (sr ! nat p)) (snd (sr ! nat p)) (length t))"
    using node cnt sv Both(1,4,7) f1 f2 l by (simp add: visit_decoded_def)
  from a b da db here Both(1) f1 f2 l show ?case by auto
qed

subsection \<open>The tree that \<open>read_subtree\<close> builds\<close>

lemma fresh_treeI:
  assumes "\<And>i. i < length t \<Longrightarrow>
     leafID (t ! i) = 0
     \<and> (property (t ! i) \<noteq> - 1 \<longrightarrow>
           0 \<le> property (t ! i) \<and> nat (property (t ! i)) < nb
           \<and> i < childID (t ! i) \<and> childID (t ! i) + 1 < length t)"
  shows "fresh_tree nb t"
  unfolding fresh_tree_def children_exist_def children_after_def properties_valid_def
  using assms by (simp add: Suc_lessD)

lemma fresh_treeD:
  assumes "fresh_tree nb t" "i < length t"
  shows "leafID (t ! i) = 0"
    and "property (t ! i) \<noteq> - 1 \<Longrightarrow>
           0 \<le> property (t ! i) \<and> nat (property (t ! i)) < nb
           \<and> i < childID (t ! i) \<and> childID (t ! i) + 1 < length t"
  using assms
  unfolding fresh_tree_def children_exist_def children_after_def properties_valid_def
  by simp_all

lemma fresh_tree_leaf:
  assumes f: "fresh_tree nb t"
  shows "fresh_tree nb (t[pos := (t ! pos)\<lparr>property := - 1\<rparr>])"
proof (rule fresh_treeI)
  fix i assume "i < length (t[pos := (t ! pos)\<lparr>property := - 1\<rparr>])"
  then have i: "i < length t" by simp
  show "leafID (t[pos := (t ! pos)\<lparr>property := - 1\<rparr>] ! i) = 0
     \<and> (property (t[pos := (t ! pos)\<lparr>property := - 1\<rparr>] ! i) \<noteq> - 1 \<longrightarrow>
           0 \<le> property (t[pos := (t ! pos)\<lparr>property := - 1\<rparr>] ! i)
           \<and> nat (property (t[pos := (t ! pos)\<lparr>property := - 1\<rparr>] ! i)) < nb
           \<and> i < childID (t[pos := (t ! pos)\<lparr>property := - 1\<rparr>] ! i)
           \<and> childID (t[pos := (t ! pos)\<lparr>property := - 1\<rparr>] ! i) + 1
               < length (t[pos := (t ! pos)\<lparr>property := - 1\<rparr>]))"
  proof (cases "i = pos")
    case True
    with i fresh_treeD(1) [OF f i] show ?thesis by simp
  next
    case False
    with i fresh_treeD [OF f i] show ?thesis by simp
  qed
qed

lemma fresh_tree_inner:
  fixes k sv :: int
  assumes f: "fresh_tree nb t" and pos: "pos < length t" and p: "0 \<le> p" "nat p < nb"
  defines "t2 \<equiv> t[pos := (t ! pos)\<lparr>property := p, count := k, splitval := sv,
                                    childID := length t\<rparr>]
               @ [PropertyDecisionNode_default, PropertyDecisionNode_default]"
  shows "fresh_tree nb t2"
proof (rule fresh_treeI)
  fix i assume "i < length t2"
  then have i: "i < length t + 2" by (simp add: t2_def)
  have len: "length t2 = length t + 2" by (simp add: t2_def)
  consider (here) "i = pos" | (old) "i < length t" "i \<noteq> pos" | (c1) "i = length t"
    | (c2) "i = length t + 1"
    using i by linarith
  then show "leafID (t2 ! i) = 0
     \<and> (property (t2 ! i) \<noteq> - 1 \<longrightarrow>
           0 \<le> property (t2 ! i) \<and> nat (property (t2 ! i)) < nb
           \<and> i < childID (t2 ! i) \<and> childID (t2 ! i) + 1 < length t2)"
  proof cases
    case here
    then have "t2 ! i = (t ! pos)\<lparr>property := p, count := k, splitval := sv,
                                    childID := length t\<rparr>"
      using pos by (simp add: t2_def nth_append)
    then show ?thesis using fresh_treeD(1) [OF f pos] p pos here len by simp
  next
    case old
    then have "t2 ! i = t ! i" by (simp add: t2_def nth_append)
    then show ?thesis using fresh_treeD [OF f old(1)] len by auto
  next
    case c1
    then have "t2 ! i = PropertyDecisionNode_default" by (simp add: t2_def nth_append)
    then show ?thesis by (simp add: PropertyDecisionNode_default_def)
  next
    case c2
    then have "t2 ! i = PropertyDecisionNode_default" by (simp add: t2_def nth_append)
    then show ?thesis by (simp add: PropertyDecisionNode_default_def)
  qed
qed

lemma read_subtree_fresh:
  assumes "read_subtree rd nb mc xc fuel pos sr t c = Some (Inr r)"
  shows "case r of (ok, vs, sr', t', c') \<Rightarrow>
           ok \<longrightarrow> fresh_tree (length sr) t \<longrightarrow> fresh_tree (length sr) t'"
  using assms
proof (induct rule: read_subtree_result_induct)
  case (Leaf pos sr t c v c1)
  show ?case by (simp add: fresh_tree_leaf)
next
  case (Invalid pos sr t c v c1 p)
  show ?case by simp
next
  case (Fail1 pos sr t c v c1 p cnt c2 sv c3 sr1 t2 vs1 sr2 t3 c4 fuel)
  show ?case by simp
next
  case (Fail2 pos sr t c v c1 p cnt c2 sv c3 sr1 t2 vs1 sr2 t3 c4 sr3 vs2 sr4 t4 c5 fuel)
  show ?case by simp
next
  case (Both pos sr t c v c1 p cnt c2 sv c3 sr1 t2 vs1 sr2 t3 c4 sr3 vs2 sr4 t4 c5 fuel)
  from read_subtree_frame [OF Both(12)] have s2: "sr2 = sr1" by simp
  have l1: "length sr1 = length sr" by (simp add: Both(10))
  have l3: "length sr3 = length sr" by (simp add: Both(14) s2 l1)
  have "fresh_tree (length sr) t4" if f: "fresh_tree (length sr) t"
  proof -
    have "fresh_tree (length sr) t2"
      unfolding Both(11) using f Both(1,5,6) by (rule fresh_tree_inner)
    with Both(13) have "fresh_tree (length sr) t3" by (simp add: l1)
    with Both(16) show ?thesis by (simp add: l3)
  qed
  then show ?case by simp
qed

subsection \<open>Steps and invariants of \<open>find_leaf\<close>\<close>

lemma find_leaf_loop_oob:
  "length t \<le> pos \<Longrightarrow> find_leaf_loop props ls t pos = Some (Inl OutOfBounds)"
  by (subst find_leaf_loop.simps) simp

lemma find_leaf_loop_leaf:
  assumes "pos < length t" "property (t ! pos) = - 1"
  shows "find_leaf_loop props ls t pos =
     (if length ls \<le> leafID (t ! pos) then Some (Inl OutOfBounds)
      else Some (Inr (leafID (t ! pos), ls, t)))"
  using assms by (subst find_leaf_loop.simps) simp

lemma find_leaf_loop_inner:
  assumes "pos < length t" "property (t ! pos) \<noteq> - 1" "count (t ! pos) < 0"
  shows "find_leaf_loop props ls t pos =
     (if property (t ! pos) < 0 \<or> length props \<le> nat (property (t ! pos))
        then Some (Inl OutOfBounds)
      else find_leaf_loop props ls t
             (if props ! nat (property (t ! pos)) > splitval (t ! pos)
              then childID (t ! pos) else childID (t ! pos) + 1))"
  using assms by (subst find_leaf_loop.simps) simp

lemma find_leaf_loop_count:
  assumes "pos < length t" "property (t ! pos) \<noteq> - 1" "0 < count (t ! pos)"
  shows "find_leaf_loop props ls t pos =
     (if \<not> leafID (t ! pos) < length ls then Some (Inl AssertionFailed)
      else Some (Inr (leafID (t ! pos), ls, t[pos := (t ! pos)\<lparr>count := count (t ! pos) - 1\<rparr>])))"
  using assms by (subst find_leaf_loop.simps) (simp add: Let_def)

lemma find_leaf_loop_split:
  assumes "pos < length t" "property (t ! pos) \<noteq> - 1" "count (t ! pos) = 0"
  shows "find_leaf_loop props ls t pos =
     (let n = t ! pos;
          t1 = t[pos := n\<lparr>count := - 1\<rparr>];
          t2 = t1[childID n := (t1 ! childID n)\<lparr>leafID := leafID n\<rparr>];
          t3 = t2[childID n + 1 := (t2 ! (childID n + 1))\<lparr>leafID := length ls\<rparr>]
      in if length ls \<le> leafID n then Some (Inl OutOfBounds)
         else if length t \<le> childID n then Some (Inl OutOfBounds)
         else if length t \<le> childID n + 1 then Some (Inl OutOfBounds)
         else if property n < 0 \<or> length props \<le> nat (property n) then Some (Inl OutOfBounds)
         else Some (Inr (if props ! nat (property n) > splitval n then leafID n else length ls,
                         ls @ [ls ! leafID n], t3)))"
  using assms
  by (subst find_leaf_loop.simps)
     (cases "childID (t ! pos) = pos"; cases "childID (t ! pos) + 1 = pos"; simp add: Let_def)

lemma find_leaf_loop_stops:
  assumes "find_leaf_loop props ls t pos = Some y"
  shows "\<exists>pos'. find_leaf_loop props ls t pos' = Some y
           \<and> \<not> (pos' < length t \<and> property (t ! pos') \<noteq> - 1 \<and> count (t ! pos') < 0
                 \<and> 0 \<le> property (t ! pos') \<and> nat (property (t ! pos')) < length props)"
proof (rule find_leaf_loop.raw_induct
    [where P = "\<lambda>props ls t pos y. \<exists>pos'. find_leaf_loop props ls t pos' = Some y
           \<and> \<not> (pos' < length t \<and> property (t ! pos') \<noteq> - 1 \<and> count (t ! pos') < 0
                 \<and> 0 \<le> property (t ! pos') \<and> nat (property (t ! pos')) < length props)",
     OF _ assms])
  fix f :: "Properties \<Rightarrow> 'a list \<Rightarrow> Tree \<Rightarrow> nat \<Rightarrow> (error + nat \<times> 'a list \<times> Tree) option"
    and props ls t pos y
  assume IH: "\<And>props ls t pos y. f props ls t pos = Some y \<Longrightarrow>
      \<exists>pos'. find_leaf_loop props ls t pos' = Some y
           \<and> \<not> (pos' < length t \<and> property (t ! pos') \<noteq> - 1 \<and> count (t ! pos') < 0
                 \<and> 0 \<le> property (t ! pos') \<and> nat (property (t ! pos')) < length props)"
  assume body: "(if length t \<le> pos then Some (Inl OutOfBounds)
      else if property (t ! pos) \<noteq> - 1 then
        (if count (t ! pos) < 0 then
           (if property (t ! pos) < 0 \<or> length props \<le> nat (property (t ! pos))
              then Some (Inl OutOfBounds)
            else if props ! nat (property (t ! pos)) > splitval (t ! pos)
              then f props ls t (childID (t ! pos))
            else f props ls t (childID (t ! pos) + 1))
         else if count (t ! pos) > 0 then
           (if \<not> leafID (t ! pos) < length ls then Some (Inl AssertionFailed)
            else
              let tree1 = t[pos := (t ! pos)\<lparr>count := count (t ! pos) - 1\<rparr>]
              in Some (Inr (leafID (tree1 ! pos), ls, tree1)))
         else
           (let tree1 = t[pos := (t ! pos)\<lparr>count := count (t ! pos) - 1\<rparr>]
            in if length ls \<le> leafID (tree1 ! pos) then Some (Inl OutOfBounds)
               else
                 let old_leaf = leafID (tree1 ! pos);
                     new_leaf = length ls;
                     leaves1 = ls @ [ls ! old_leaf]
                 in if length tree1 \<le> childID (tree1 ! pos) then Some (Inl OutOfBounds)
                    else
                      let tree2 = tree1[childID (tree1 ! pos) :=
                                    (tree1 ! childID (tree1 ! pos))\<lparr>leafID := old_leaf\<rparr>]
                      in if length tree2 \<le> childID (tree2 ! pos) + 1 then Some (Inl OutOfBounds)
                         else
                           let tree3 = tree2[childID (tree2 ! pos) + 1 :=
                                         (tree2 ! (childID (tree2 ! pos) + 1))\<lparr>leafID := new_leaf\<rparr>]
                           in if property (tree3 ! pos) < 0
                                 \<or> length props \<le> nat (property (tree3 ! pos))
                                then Some (Inl OutOfBounds)
                              else if props ! nat (property (tree3 ! pos))
                                       > splitval (tree3 ! pos)
                                then Some (Inr (old_leaf, leaves1, tree3))
                              else Some (Inr (new_leaf, leaves1, tree3))))
      else if length ls \<le> leafID (t ! pos) then Some (Inl OutOfBounds)
      else Some (Inr (leafID (t ! pos), ls, t))) = Some y"
  let ?walks = "pos < length t \<and> property (t ! pos) \<noteq> - 1 \<and> count (t ! pos) < 0
                 \<and> 0 \<le> property (t ! pos) \<and> nat (property (t ! pos)) < length props"
  show "\<exists>pos'. find_leaf_loop props ls t pos' = Some y
           \<and> \<not> (pos' < length t \<and> property (t ! pos') \<noteq> - 1 \<and> count (t ! pos') < 0
                 \<and> 0 \<le> property (t ! pos') \<and> nat (property (t ! pos')) < length props)"
  proof (cases ?walks)
    case True
    with body have "f props ls t (if props ! nat (property (t ! pos)) > splitval (t ! pos)
              then childID (t ! pos) else childID (t ! pos) + 1) = Some y"
      by (simp split: if_splits)
    then show ?thesis by (rule IH)
  next
    case False
    have "find_leaf_loop props ls t pos = Some y"
    proof (cases "pos < length t \<and> property (t ! pos) \<noteq> - 1 \<and> count (t ! pos) < 0")
      case True
      with False have "property (t ! pos) < 0 \<or> length props \<le> nat (property (t ! pos))"
        by auto
      with True body show ?thesis by (subst find_leaf_loop.simps) auto
    next
      case False
      then consider "length t \<le> pos" | "pos < length t" "property (t ! pos) = - 1"
        | "pos < length t" "property (t ! pos) \<noteq> - 1" "\<not> count (t ! pos) < 0"
        by fastforce
      then show ?thesis
      proof cases
        case 1
        with body show ?thesis by (subst find_leaf_loop.simps) simp
      next
        case 2
        with body show ?thesis by (subst find_leaf_loop.simps) simp
      next
        case 3
        with body show ?thesis by (subst find_leaf_loop.simps) simp
      qed
    qed
    with False show ?thesis by blast
  qed
qed


lemma split_tree_nth:
  assumes "pos < length t" "childID (t ! pos) + 1 < length t"
  shows "length (split_tree t pos m) = length t"
    and "i < length t \<Longrightarrow> property (split_tree t pos m ! i) = property (t ! i)"
    and "i < length t \<Longrightarrow> splitval (split_tree t pos m ! i) = splitval (t ! i)"
    and "i < length t \<Longrightarrow> childID (split_tree t pos m ! i) = childID (t ! i)"
    and "i < length t \<Longrightarrow> count (split_tree t pos m ! i) = (if i = pos then - 1 else count (t ! i))"
    and "i < length t \<Longrightarrow> leafID (split_tree t pos m ! i) =
           (if i = childID (t ! pos) + 1 then m
            else if i = childID (t ! pos) then leafID (t ! pos) else leafID (t ! i))"
  using assms unfolding split_tree_def Let_def
  by (auto simp: nth_list_update)

lemma find_leaf_loop_split':
  assumes "pos < length t" "property (t ! pos) \<noteq> - 1" "count (t ! pos) = 0"
    "leafID (t ! pos) < length ls" "childID (t ! pos) + 1 < length t"
    "0 \<le> property (t ! pos)" "nat (property (t ! pos)) < length props"
  shows "find_leaf_loop props ls t pos =
     Some (Inr (if props ! nat (property (t ! pos)) > splitval (t ! pos)
                then leafID (t ! pos) else length ls,
                ls @ [ls ! leafID (t ! pos)], split_tree t pos (length ls)))"
  unfolding find_leaf_loop_split [OF assms(1-3)] split_tree_def using assms(4-)
  by (simp add: Let_def)

lemma children_exist_same:
  assumes "children_exist t" "length t' = length t"
    "\<And>i. i < length t \<Longrightarrow> property (t' ! i) = property (t ! i)"
    "\<And>i. i < length t \<Longrightarrow> childID (t' ! i) = childID (t ! i)"
  shows "children_exist t'"
  using assms unfolding children_exist_def by simp

lemma children_existD:
  "children_exist t \<Longrightarrow> pos < length t \<Longrightarrow> property (t ! pos) \<noteq> - 1
    \<Longrightarrow> childID (t ! pos) < length t \<and> childID (t ! pos) + 1 < length t"
  unfolding children_exist_def by blast

lemma find_leaf_loop_preserves:
  assumes run: "find_leaf_loop props ls t pos = Some (Inr (leaf, ls', t'))"
    and ce: "children_exist t" and lv: "leafIDs_valid t ls"
  shows "children_exist t' \<and> leafIDs_valid t' ls' \<and> leaf < length ls' \<and> length t' = length t
    \<and> (\<forall>i < length t. property (t' ! i) = property (t ! i) \<and> childID (t' ! i) = childID (t ! i))"
proof -
  from find_leaf_loop_stops [OF run] obtain q
    where q: "find_leaf_loop props ls t q = Some (Inr (leaf, ls', t'))"
      and stop: "\<not> (q < length t \<and> property (t ! q) \<noteq> - 1 \<and> count (t ! q) < 0
                 \<and> 0 \<le> property (t ! q) \<and> nat (property (t ! q)) < length props)"
    by blast
  have ql: "q < length t"
  proof (rule ccontr)
    assume "\<not> q < length t"
    then have "length t \<le> q" by simp
    from find_leaf_loop_oob [OF this, of props ls] q show False by simp
  qed
  have lq: "leafID (t ! q) < length ls" using lv ql by (simp add: leafIDs_valid_def)
  consider (leaf) "property (t ! q) = - 1"
    | (inner) "property (t ! q) \<noteq> - 1" "count (t ! q) < 0"
    | (counting) "property (t ! q) \<noteq> - 1" "0 < count (t ! q)"
    | (split) "property (t ! q) \<noteq> - 1" "count (t ! q) = 0"
    by linarith
  then show ?thesis
  proof cases
    case leaf
    from q find_leaf_loop_leaf [OF ql leaf, of props ls] lq
    have "leaf = leafID (t ! q)" "ls' = ls" "t' = t" by auto
    with ce lv lq show ?thesis by simp
  next
    case inner
    with stop ql have "property (t ! q) < 0 \<or> length props \<le> nat (property (t ! q))"
      by auto
    with q find_leaf_loop_inner [OF ql inner, of props ls] show ?thesis by simp
  next
    case counting
    from q find_leaf_loop_count [OF ql counting, of props ls] lq
    have r: "leaf = leafID (t ! q)" "ls' = ls"
      "t' = t[q := (t ! q)\<lparr>count := count (t ! q) - 1\<rparr>]" by auto
    have "children_exist t'"
      using ce by (rule children_exist_same) (use ql in \<open>auto simp: r nth_list_update\<close>)
    moreover have "leafIDs_valid t' ls'"
      using lv ql unfolding leafIDs_valid_def r by (auto simp: nth_list_update)
    ultimately show ?thesis using lq r ql by (auto simp: nth_list_update)
  next
    case split
    from children_existD [OF ce ql split(1)]
    have c: "childID (t ! q) < length t" "childID (t ! q) + 1 < length t" by simp_all
    define t3 where "t3 = split_tree t q (length ls)"
    note nth = split_tree_nth [OF ql c(2), where m = "length ls", folded t3_def]
    have p: "0 \<le> property (t ! q) \<and> nat (property (t ! q)) < length props"
    proof (rule ccontr)
      assume "\<not> ?thesis"
      then have "property (t ! q) < 0 \<or> length props \<le> nat (property (t ! q))" by auto
      with q find_leaf_loop_split [OF ql split, of props ls] lq c show False
        by (simp add: Let_def)
    qed
    from q find_leaf_loop_split' [OF ql split lq c(2), of props] p
    have r: "ls' = ls @ [ls ! leafID (t ! q)]" "t' = t3"
      "leaf = leafID (t ! q) \<or> leaf = length ls"
      by (auto simp: t3_def split: if_splits)
    have "children_exist t3"
      using ce by (rule children_exist_same) (simp_all add: nth)
    moreover have "leafIDs_valid t3 ls'"
      using lv lq unfolding leafIDs_valid_def r by (auto simp: nth less_Suc_eq)
    ultimately show ?thesis using lq r nth(1,2,4) by auto
  qed
qed

lemma find_leaf_loop_total:
  assumes ce: "children_exist t" and ca: "children_after t"
    and pv: "properties_valid (length props) t" and lv: "leafIDs_valid t ls"
  shows "pos < length t \<Longrightarrow> \<exists>leaf ls' t'. find_leaf_loop props ls t pos = Some (Inr (leaf, ls', t'))"
proof (induct "length t - pos" arbitrary: pos rule: less_induct)
  case less
  note ql = less.prems
  have lq: "leafID (t ! pos) < length ls" using lv ql by (simp add: leafIDs_valid_def)
  show ?case
  proof (cases "property (t ! pos) = - 1")
    case True
    show ?thesis unfolding find_leaf_loop_leaf [OF ql True] using lq by simp
  next
    case False
    from children_existD [OF ce ql False]
    have c: "childID (t ! pos) < length t" "childID (t ! pos) + 1 < length t" by simp_all
    have after: "pos < childID (t ! pos)" using ca ql False by (simp add: children_after_def)
    have p: "0 \<le> property (t ! pos)" "nat (property (t ! pos)) < length props"
      using pv ql False by (simp_all add: properties_valid_def)
    consider (inner) "count (t ! pos) < 0" | (counting) "0 < count (t ! pos)"
      | (split) "count (t ! pos) = 0"
      by linarith
    then show ?thesis
    proof cases
      case inner
      define nx where "nx = (if props ! nat (property (t ! pos)) > splitval (t ! pos)
              then childID (t ! pos) else childID (t ! pos) + 1)"
      have nx: "nx < length t" "pos < nx" using c after by (simp_all add: nx_def)
      have "find_leaf_loop props ls t pos = find_leaf_loop props ls t nx"
        unfolding find_leaf_loop_inner [OF ql False inner] nx_def using p by simp
      moreover have "\<exists>leaf ls' t'. find_leaf_loop props ls t nx = Some (Inr (leaf, ls', t'))"
        using nx by (intro less.hyps) simp_all
      ultimately show ?thesis by simp
    next
      case counting
      show ?thesis unfolding find_leaf_loop_count [OF ql False counting] using lq by simp
    next
      case split
      show ?thesis
        unfolding find_leaf_loop_split' [OF ql False split lq c(2) p] by simp
    qed
  qed
qed

subsection \<open>Decoding the tree\<close>

lemma replay_in_range: "reads_in_range replay"
  unfolding reads_in_range_def
proof (intro allI impI)
  fix c :: "int list" and lo hi :: int
  assume "lo \<le> hi"
  then show "lo \<le> fst (replay c lo hi) \<and> fst (replay c lo hi) \<le> hi"
    by (cases c) simp_all
qed

text \<open>Two runs of \<open>read_subtree\<close> on a single property, with the counts taken in \<open>[1, 512]\<close>.\<close>

lemma read_subtree_example_split:
  "read_subtree replay 1 1 512 (Suc (Suc (Suc 0))) 0 [(0, 2)] Tree_new [1, 5, 1, 0, 0]
    = Some (Inr (True, [Inner_visit 0 0 0 2 1, Leaf_visit 1, Leaf_visit 2], [(0, 2)],
         [\<lparr>property = 0, count = 5, splitval = 1, childID = 1, leafID = 0\<rparr>,
          PropertyDecisionNode_default, PropertyDecisionNode_default], []))"
  by (simp add: read_subtree.simps Let_def int8_t_def int16_t_def Tree_new_def
        PropertyDecisionNode_default_def)

lemma read_subtree_example_invalid:
  "read_subtree replay 1 1 512 (Suc 0) 0 [(5, 5)] Tree_new [1]
    = Some (Inr (False, [Inner_visit 0 0 5 5 1], [(5, 5)],
         [\<lparr>property = 0, count = 0, splitval = 0, childID = 0, leafID = 0\<rparr>], []))"
  by (simp add: read_subtree.simps Let_def int8_t_def int16_t_def Tree_new_def
        PropertyDecisionNode_default_def)

text \<open>
  Claim C9. Whenever \<open>read_subtree\<close> returns true, the range vector it leaves is the one
  it was entered with.
\<close>

theorem read_subtree_restores_subrange:
  assumes "read_subtree coder_read_int nb min_count max_count fuel pos subrange tree c
             = Some (Inr (True, visits, subrange', tree', c'))"
  shows "subrange' = subrange"
  using assms by (rule read_subtree_restores)

theorem read_subtree_restores_subrange_witness:
  "read_subtree replay 1 1 512 (Suc (Suc (Suc 0))) 0 [(0, 2)] Tree_new [1, 5, 1, 0, 0]
    = Some (Inr (True, [Inner_visit 0 0 0 2 1, Leaf_visit 1, Leaf_visit 2], [(0, 2)],
         [\<lparr>property = 0, count = 5, splitval = 1, childID = 1, leafID = 0\<rparr>,
          PropertyDecisionNode_default, PropertyDecisionNode_default], []))
   \<and> [(0, 2)] = [(0, 2 :: int)]"
  using read_subtree_example_split
    read_subtree_restores_subrange [OF read_subtree_example_split]
  by simp

text \<open>
  Claim C3. Let the coder decode within the range it is asked for, let the range vector
  have \<open>nb_properties\<close> entries, at most 128 so that a property fits the \<open>int8_t\<close> field,
  and let the bounds of \<open>count\<close> fit its \<open>int16_t\<close> field. Then \<open>read_subtree\<close> returns,
  and it returns false exactly when some visited node decoded a property \<open>p \<noteq> -1\<close>
  while the range vector had \<open>lo \<ge> hi\<close> for \<open>p\<close>. When it returns true, every inner
  node visited has its \<open>count\<close> in \<open>[min_count, max_count]\<close>, its \<open>splitval\<close> in
  \<open>[lo, hi - 1]\<close> for the bounds of the range vector at that visit, and its \<open>childID\<close>
  equal to the size the tree had at the visit, with the two children at \<open>childID\<close> and
  \<open>childID + 1\<close> appended behind the nodes of the entry.
\<close>

theorem read_subtree_invalid_tree:
  assumes "reads_in_range coder_read_int"
    and "min_count \<le> max_count" "- 32768 \<le> min_count" "max_count \<le> 32767"
    and "length subrange = nb" "nb \<le> 128" "pos < length tree"
    and "range_width subrange < fuel"
  shows "\<exists>ok visits subrange' tree' c'.
     read_subtree coder_read_int nb min_count max_count fuel pos subrange tree c
       = Some (Inr (ok, visits, subrange', tree', c'))
     \<and> ((\<not> ok) = (\<exists>q p lo hi sz. Inner_visit q p lo hi sz \<in> set visits \<and> p \<noteq> - 1 \<and> lo \<ge> hi))
     \<and> (ok \<longrightarrow>
          (\<forall>q p lo hi sz. Inner_visit q p lo hi sz \<in> set visits \<longrightarrow>
             q < length tree' \<and> property (tree' ! q) = p
             \<and> min_count \<le> count (tree' ! q) \<and> count (tree' ! q) \<le> max_count
             \<and> lo \<le> splitval (tree' ! q) \<and> splitval (tree' ! q) \<le> hi - 1
             \<and> childID (tree' ! q) = sz \<and> length tree \<le> sz \<and> sz + 1 < length tree'))"
proof -
  from read_subtree_total [OF assms(1,6,5,7,8)]
  obtain ok visits subrange' tree' c'
    where run: "read_subtree coder_read_int nb min_count max_count fuel pos subrange tree c
       = Some (Inr (ok, visits, subrange', tree', c'))"
    by (metis prod_cases5)
  from read_subtree_invalid_visit [OF run]
  have "(\<not> ok) = (\<exists>e \<in> set visits. \<exists>q p lo hi sz.
                          e = Inner_visit q p lo hi sz \<and> p \<noteq> - 1 \<and> hi \<le> lo)"
    by simp
  moreover have "(\<exists>e \<in> set visits. \<exists>q p lo hi sz.
                          e = Inner_visit q p lo hi sz \<and> p \<noteq> - 1 \<and> hi \<le> lo)
     = (\<exists>q p lo hi sz. Inner_visit q p lo hi sz \<in> set visits \<and> p \<noteq> - 1 \<and> lo \<ge> hi)"
    by blast
  ultimately
  have a: "(\<not> ok) = (\<exists>q p lo hi sz. Inner_visit q p lo hi sz \<in> set visits \<and> p \<noteq> - 1 \<and> lo \<ge> hi)"
    by simp
  from read_subtree_visits [OF run assms(1-4)]
  have d: "ok \<longrightarrow> (\<forall>e \<in> set visits. visit_decoded min_count max_count (length tree) tree' e)"
    by simp
  have b: "ok \<longrightarrow>
          (\<forall>q p lo hi sz. Inner_visit q p lo hi sz \<in> set visits \<longrightarrow>
             q < length tree' \<and> property (tree' ! q) = p
             \<and> min_count \<le> count (tree' ! q) \<and> count (tree' ! q) \<le> max_count
             \<and> lo \<le> splitval (tree' ! q) \<and> splitval (tree' ! q) \<le> hi - 1
             \<and> childID (tree' ! q) = sz \<and> length tree \<le> sz \<and> sz + 1 < length tree')"
  proof (intro impI allI)
    fix q p lo hi sz
    assume ok and "Inner_visit q p lo hi sz \<in> set visits"
    with d have "visit_decoded min_count max_count (length tree) tree' (Inner_visit q p lo hi sz)"
      by blast
    then show "q < length tree' \<and> property (tree' ! q) = p
             \<and> min_count \<le> count (tree' ! q) \<and> count (tree' ! q) \<le> max_count
             \<and> lo \<le> splitval (tree' ! q) \<and> splitval (tree' ! q) \<le> hi - 1
             \<and> childID (tree' ! q) = sz \<and> length tree \<le> sz \<and> sz + 1 < length tree'"
      by (simp add: visit_decoded_def)
  qed
  from run a b show ?thesis by blast
qed

theorem read_subtree_invalid_tree_witness:
  "(\<exists>ok visits subrange' tree' c'.
     read_subtree replay 1 1 512 (Suc (Suc (Suc 0))) 0 [(0, 2)] Tree_new [1, 5, 1, 0, 0]
       = Some (Inr (ok, visits, subrange', tree', c'))
     \<and> ok \<and> visits = [Inner_visit 0 0 0 2 1, Leaf_visit 1, Leaf_visit 2]
     \<and> count (tree' ! 0) = 5 \<and> splitval (tree' ! 0) = 1 \<and> childID (tree' ! 0) = 1
     \<and> (1::int) \<le> count (tree' ! 0) \<and> count (tree' ! 0) \<le> 512
     \<and> 0 \<le> splitval (tree' ! 0) \<and> splitval (tree' ! 0) \<le> 2 - 1
     \<and> length Tree_new \<le> 1 \<and> 1 + 1 < length tree')
   \<and> (\<exists>ok visits subrange' tree' c'.
     read_subtree replay 1 1 512 (Suc 0) 0 [(5, 5)] Tree_new [1]
       = Some (Inr (ok, visits, subrange', tree', c'))
     \<and> \<not> ok \<and> Inner_visit 0 0 5 5 1 \<in> set visits)"
proof -
  have w3: "range_width [(0, 2)] < Suc (Suc (Suc 0))" and w1: "range_width [(5, 5)] < Suc 0"
    by (simp_all add: range_width_def)
  have h: "(1::int) \<le> 512" "- 32768 \<le> (1::int)" "(512::int) \<le> 32767"
    "length [(0, 2 :: int)] = 1" "length [(5, 5 :: int)] = 1" "(1::nat) \<le> 128"
    "0 < length Tree_new"
    by (simp_all add: Tree_new_def)
  from read_subtree_invalid_tree [OF replay_in_range h(1,2,3,4,6,7) w3, of "[1, 5, 1, 0, 0]"]
  have a: "\<exists>ok visits subrange' tree' c'.
     read_subtree replay 1 1 512 (Suc (Suc (Suc 0))) 0 [(0, 2)] Tree_new [1, 5, 1, 0, 0]
       = Some (Inr (ok, visits, subrange', tree', c'))
     \<and> ok \<and> visits = [Inner_visit 0 0 0 2 1, Leaf_visit 1, Leaf_visit 2]
     \<and> count (tree' ! 0) = 5 \<and> splitval (tree' ! 0) = 1 \<and> childID (tree' ! 0) = 1
     \<and> (1::int) \<le> count (tree' ! 0) \<and> count (tree' ! 0) \<le> 512
     \<and> 0 \<le> splitval (tree' ! 0) \<and> splitval (tree' ! 0) \<le> 2 - 1
     \<and> length Tree_new \<le> 1 \<and> 1 + 1 < length tree'"
    unfolding read_subtree_example_split by (simp add: Tree_new_def)
  from read_subtree_invalid_tree [OF replay_in_range h(1,2,3,5,6,7) w1, of "[1]"]
  have b: "\<exists>ok visits subrange' tree' c'.
     read_subtree replay 1 1 512 (Suc 0) 0 [(5, 5)] Tree_new [1]
       = Some (Inr (ok, visits, subrange', tree', c'))
     \<and> \<not> ok \<and> Inner_visit 0 0 5 5 1 \<in> set visits"
    unfolding read_subtree_example_invalid by auto
  from a b show ?thesis by blast
qed

subsection \<open>Routing and reading\<close>

text \<open>
  Claim C2. In a well-formed tree (children exist, every \<open>leafID\<close> is valid, every
  property indexes the properties vector), the loop of \<open>find_leaf\<close> at a position \<open>pos\<close>
  of the tree does the following. At a node with \<open>property = -1\<close> it returns the leaf
  \<open>leafID\<close> and changes nothing. At a node with \<open>count < 0\<close> it goes on from \<open>childID\<close>
  when \<open>properties[property] > splitval\<close>, and from \<open>childID + 1\<close> otherwise. At a node
  with \<open>count > 0\<close> it decrements \<open>count\<close> and returns the leaf \<open>leafID\<close>. At a node with
  \<open>count = 0\<close> it splits: \<open>count\<close> becomes \<open>-1\<close>, a copy of the leaf \<open>leafID\<close> is
  appended to the leaf store, the child at \<open>childID\<close> gets the old \<open>leafID\<close> and the
  child at \<open>childID + 1\<close> the index of the copy, nothing else changes, and the leaf
  returned is the old one when \<open>properties[property] > splitval\<close> and the copy otherwise;
  the two leaves are equal. \<open>find_leaf\<close> is this loop from position 0.
\<close>

theorem find_leaf_cases:
  assumes "children_exist tree" "leafIDs_valid tree leaves"
    and "properties_valid (length properties) tree" "pos < length tree"
  shows "(property (tree ! pos) = - 1 \<longrightarrow>
            find_leaf_loop properties leaves tree pos
              = Some (Inr (leafID (tree ! pos), leaves, tree)))
    \<and> (property (tree ! pos) \<noteq> - 1 \<and> count (tree ! pos) < 0 \<longrightarrow>
            find_leaf_loop properties leaves tree pos
              = find_leaf_loop properties leaves tree
                  (if properties ! nat (property (tree ! pos)) > splitval (tree ! pos)
                   then childID (tree ! pos) else childID (tree ! pos) + 1))
    \<and> (property (tree ! pos) \<noteq> - 1 \<and> count (tree ! pos) > 0 \<longrightarrow>
            find_leaf_loop properties leaves tree pos
              = Some (Inr (leafID (tree ! pos), leaves,
                           tree[pos := (tree ! pos)\<lparr>count := count (tree ! pos) - 1\<rparr>])))
    \<and> (property (tree ! pos) \<noteq> - 1 \<and> count (tree ! pos) = 0 \<longrightarrow>
          (\<exists>tree'.
            find_leaf_loop properties leaves tree pos
              = Some (Inr (if properties ! nat (property (tree ! pos)) > splitval (tree ! pos)
                           then leafID (tree ! pos) else length leaves,
                           leaves @ [leaves ! leafID (tree ! pos)], tree'))
            \<and> length tree' = length tree
            \<and> count (tree' ! pos) = - 1
            \<and> leafID (tree' ! childID (tree ! pos)) = leafID (tree ! pos)
            \<and> leafID (tree' ! (childID (tree ! pos) + 1)) = length leaves
            \<and> (\<forall>i < length tree.
                  property (tree' ! i) = property (tree ! i)
                  \<and> splitval (tree' ! i) = splitval (tree ! i)
                  \<and> childID (tree' ! i) = childID (tree ! i)
                  \<and> (i \<noteq> pos \<longrightarrow> count (tree' ! i) = count (tree ! i))
                  \<and> (i \<noteq> childID (tree ! pos) \<and> i \<noteq> childID (tree ! pos) + 1 \<longrightarrow>
                        leafID (tree' ! i) = leafID (tree ! i)))
            \<and> (leaves @ [leaves ! leafID (tree ! pos)]) ! leafID (tree ! pos)
                = (leaves @ [leaves ! leafID (tree ! pos)]) ! length leaves))"
proof (intro conjI impI)
  note pos = assms(4)
  have lq: "leafID (tree ! pos) < length leaves"
    using assms(2) pos by (simp add: leafIDs_valid_def)
  {
    assume "property (tree ! pos) = - 1"
    then show "find_leaf_loop properties leaves tree pos
              = Some (Inr (leafID (tree ! pos), leaves, tree))"
      using find_leaf_loop_leaf [OF pos, of properties leaves] lq by simp
  }
  {
    assume a: "property (tree ! pos) \<noteq> - 1 \<and> count (tree ! pos) < 0"
    then have "0 \<le> property (tree ! pos)" "nat (property (tree ! pos)) < length properties"
      using assms(3) pos by (simp_all add: properties_valid_def)
    then show "find_leaf_loop properties leaves tree pos
              = find_leaf_loop properties leaves tree
                  (if properties ! nat (property (tree ! pos)) > splitval (tree ! pos)
                   then childID (tree ! pos) else childID (tree ! pos) + 1)"
      using find_leaf_loop_inner [OF pos, of properties leaves] a by simp
  }
  {
    assume a: "property (tree ! pos) \<noteq> - 1 \<and> count (tree ! pos) > 0"
    then show "find_leaf_loop properties leaves tree pos
              = Some (Inr (leafID (tree ! pos), leaves,
                           tree[pos := (tree ! pos)\<lparr>count := count (tree ! pos) - 1\<rparr>]))"
      using find_leaf_loop_count [OF pos, of properties leaves] lq by simp
  }
  {
    assume a: "property (tree ! pos) \<noteq> - 1 \<and> count (tree ! pos) = 0"
    then have ne: "property (tree ! pos) \<noteq> - 1" and z: "count (tree ! pos) = 0" by simp_all
    have p: "0 \<le> property (tree ! pos)" "nat (property (tree ! pos)) < length properties"
      using assms(3) pos ne by (simp_all add: properties_valid_def)
    from children_existD [OF assms(1) pos ne]
    have c: "childID (tree ! pos) < length tree" "childID (tree ! pos) + 1 < length tree"
      by simp_all
    note nth = split_tree_nth [OF pos c(2), where m = "length leaves"]
    have run: "find_leaf_loop properties leaves tree pos
              = Some (Inr (if properties ! nat (property (tree ! pos)) > splitval (tree ! pos)
                           then leafID (tree ! pos) else length leaves,
                           leaves @ [leaves ! leafID (tree ! pos)],
                           split_tree tree pos (length leaves)))"
      by (rule find_leaf_loop_split' [OF pos ne z lq c(2) p])
    have same: "(leaves @ [leaves ! leafID (tree ! pos)]) ! leafID (tree ! pos)
                = (leaves @ [leaves ! leafID (tree ! pos)]) ! length leaves"
      using lq by (simp add: nth_append)
    have fields: "\<forall>i < length tree.
                  property (split_tree tree pos (length leaves) ! i) = property (tree ! i)
                  \<and> splitval (split_tree tree pos (length leaves) ! i) = splitval (tree ! i)
                  \<and> childID (split_tree tree pos (length leaves) ! i) = childID (tree ! i)
                  \<and> (i \<noteq> pos \<longrightarrow> count (split_tree tree pos (length leaves) ! i) = count (tree ! i))
                  \<and> (i \<noteq> childID (tree ! pos) \<and> i \<noteq> childID (tree ! pos) + 1 \<longrightarrow>
                        leafID (split_tree tree pos (length leaves) ! i) = leafID (tree ! i))"
      by (simp add: nth)
    have kids: "count (split_tree tree pos (length leaves) ! pos) = - 1"
      "leafID (split_tree tree pos (length leaves) ! childID (tree ! pos)) = leafID (tree ! pos)"
      "leafID (split_tree tree pos (length leaves) ! (childID (tree ! pos) + 1)) = length leaves"
      using pos c by (simp_all add: nth)
    show "\<exists>tree'.
            find_leaf_loop properties leaves tree pos
              = Some (Inr (if properties ! nat (property (tree ! pos)) > splitval (tree ! pos)
                           then leafID (tree ! pos) else length leaves,
                           leaves @ [leaves ! leafID (tree ! pos)], tree'))
            \<and> length tree' = length tree
            \<and> count (tree' ! pos) = - 1
            \<and> leafID (tree' ! childID (tree ! pos)) = leafID (tree ! pos)
            \<and> leafID (tree' ! (childID (tree ! pos) + 1)) = length leaves
            \<and> (\<forall>i < length tree.
                  property (tree' ! i) = property (tree ! i)
                  \<and> splitval (tree' ! i) = splitval (tree ! i)
                  \<and> childID (tree' ! i) = childID (tree ! i)
                  \<and> (i \<noteq> pos \<longrightarrow> count (tree' ! i) = count (tree ! i))
                  \<and> (i \<noteq> childID (tree ! pos) \<and> i \<noteq> childID (tree ! pos) + 1 \<longrightarrow>
                        leafID (tree' ! i) = leafID (tree ! i)))
            \<and> (leaves @ [leaves ! leafID (tree ! pos)]) ! leafID (tree ! pos)
                = (leaves @ [leaves ! leafID (tree ! pos)]) ! length leaves"
      using run nth(1) kids fields same by blast
  }
qed

lemma single_split_well_formed:
  "children_exist (single_split k)" "leafIDs_valid (single_split k) [x]"
  "properties_valid 3 (single_split k)" "children_after (single_split k)"
  "length (single_split k) = 3"
  by (simp_all add: single_split_def children_exist_def leafIDs_valid_def properties_valid_def
        children_after_def PropertyDecisionNode_default_def All_less_Suc nth_Cons')

theorem find_leaf_cases_witness:
  "(\<exists>tree'. find_leaf_loop [0, 200, 0] [7 :: nat] (single_split 0) 0
               = Some (Inr (0, [7, 7], tree'))
            \<and> length tree' = 3 \<and> count (tree' ! 0) = - 1
            \<and> leafID (tree' ! 1) = 0 \<and> leafID (tree' ! 2) = 1)
   \<and> (\<exists>tree'. find_leaf_loop [0, 100, 0] [7 :: nat] (single_split 0) 0
               = Some (Inr (1, [7, 7], tree')))
   \<and> find_leaf_loop [0, 200, 0] [7 :: nat] (single_split 2) 0
       = Some (Inr (0, [7], single_split 1))
   \<and> find_leaf_loop [0, 200, 0] [7 :: nat] (single_split (- 1)) 0
       = find_leaf_loop [0, 200, 0] [7 :: nat] (single_split (- 1)) 1
   \<and> find_leaf_loop [0, 200, 0] [7 :: nat] (single_split (- 1)) 1
       = Some (Inr (0, [7], single_split (- 1)))"
proof -
  have l: "length [0, 200, 0 :: int] = 3" "length [0, 100, 0 :: int] = 3" by simp_all
  have pv: "properties_valid (length [0, 200, 0 :: int]) (single_split k)"
    "properties_valid (length [0, 100, 0 :: int]) (single_split k)" for k
    using single_split_well_formed(3) [of k] by (simp_all add: eval_nat_numeral)
  have p0: "0 < length (single_split k)" "1 < length (single_split k)" for k
    by (simp_all add: single_split_well_formed(5))
  note wf = single_split_well_formed(1,2)
  have root: "property (single_split k ! 0) = 1" "count (single_split k ! 0) = k"
    "splitval (single_split k ! 0) = 128" "childID (single_split k ! 0) = 1"
    "leafID (single_split k ! 0) = 0" "property (single_split k ! Suc 0) = - 1"
    "leafID (single_split k ! Suc 0) = 0" for k
    by (simp_all add: single_split_def PropertyDecisionNode_default_def)
  have dec: "(single_split 2)[0 := (single_split 2 ! 0)\<lparr>count := 1\<rparr>] = single_split 1"
    by (simp add: single_split_def)
  from find_leaf_cases [OF wf pv(1) p0(1), of 0 "7::nat"]
  have a: "\<exists>tree'. find_leaf_loop [0, 200, 0] [7 :: nat] (single_split 0) 0
               = Some (Inr (0, [7, 7], tree'))
            \<and> length tree' = 3 \<and> count (tree' ! 0) = - 1
            \<and> leafID (tree' ! 1) = 0 \<and> leafID (tree' ! 2) = 1"
    by (auto simp: root single_split_well_formed(5) numeral_2_eq_2)
  from find_leaf_cases [OF wf pv(2) p0(1), of 0 "7::nat"]
  have b: "\<exists>tree'. find_leaf_loop [0, 100, 0] [7 :: nat] (single_split 0) 0
               = Some (Inr (1, [7, 7], tree'))"
    by (auto simp: root single_split_well_formed(5))
  from find_leaf_cases [OF wf pv(1) p0(1), of 2 "7::nat"]
  have c: "find_leaf_loop [0, 200, 0] [7 :: nat] (single_split 2) 0
       = Some (Inr (0, [7], single_split 1))"
    by (simp add: root dec)
  from find_leaf_cases [OF wf pv(1) p0(1), of "- 1" "7::nat"]
  have d: "find_leaf_loop [0, 200, 0] [7 :: nat] (single_split (- 1)) 0
       = find_leaf_loop [0, 200, 0] [7 :: nat] (single_split (- 1)) 1"
    by (simp add: root)
  from find_leaf_cases [OF wf pv(1) p0(2), of "- 1" "7::nat"]
  have e: "find_leaf_loop [0, 200, 0] [7 :: nat] (single_split (- 1)) 1
       = Some (Inr (0, [7], single_split (- 1)))"
    by (simp add: root)
  from a b c d e show ?thesis by blast
qed

text \<open>
  Claim C5. When \<open>min = max\<close>, \<open>FinalCompoundSymbolCoder::read_int\<close> returns \<open>min\<close> and
  leaves the RAC and the chances as they were, and \<open>FinalPropertySymbolCoder::read_int\<close>
  returns \<open>min\<close> and leaves the whole coder as it was: tree, leaf store and RAC.
\<close>

theorem read_int_min_eq_max:
  "FinalCompoundSymbolCoder_read_int decode rac_state chancesIn m m = (m, rac_state, chancesIn)
   \<and> read_int decode st properties m m = Some (Inr (m, st))"
  by (simp add: FinalCompoundSymbolCoder_read_int_def reader_def read_int_def)

theorem read_int_min_eq_max_witness:
  "read_int (\<lambda>bitCoder lo hi. (hi, bitCoder))
      \<lparr>rac = (), nb_properties = 3, leaf_node = [7 :: nat], inner_node = single_split 0\<rparr>
      [0, 200, 0] 5 5
    = Some (Inr (5, \<lparr>rac = (), nb_properties = 3, leaf_node = [7 :: nat],
                     inner_node = single_split 0\<rparr>))
   \<and> FinalCompoundSymbolCoder_read_int (\<lambda>bitCoder lo hi. (hi, bitCoder)) () (7 :: nat) 5 5
       = (5, (), 7)"
  using read_int_min_eq_max [of "\<lambda>bitCoder lo hi. (hi, bitCoder)" "()" "7 :: nat" 5
      "\<lparr>rac = (), nb_properties = 3, leaf_node = [7 :: nat], inner_node = single_split 0\<rparr>"
      "[0, 200, 0]"]
  by simp

lemma fresh_tree_default: "fresh_tree nb [PropertyDecisionNode_default]"
  by (rule fresh_treeI) (simp add: PropertyDecisionNode_default_def)

lemma read_tree_fresh:
  assumes "read_tree rd mc xc fuel range' c tree0 = Some (Inr (True, vs, sr, t, c'))"
  shows "fresh_tree (length range') t" "0 < length t"
proof -
  from assms
  have run: "read_subtree rd (length range') mc xc fuel 0 range' [PropertyDecisionNode_default] c
      = Some (Inr (True, vs, sr, t, c'))"
    by (simp add: read_tree_def)
  from read_subtree_fresh [OF run] show "fresh_tree (length range') t"
    by (simp add: fresh_tree_default)
  from read_subtree_frame [OF run] have "length [PropertyDecisionNode_default] \<le> length t"
    by simp
  then show "0 < length t" by (simp add: Suc_le_eq)
qed

lemma coder_new_fresh:
  assumes f: "fresh_tree nb t" and new: "FinalPropertySymbolCoder_new chances0 racIn range' t = Inr st"
  shows "inner_node st = t" "leaf_node st = [chances0]" "nb_properties st = length range'"
proof -
  from new have l: "0 < length t"
    by (simp add: FinalPropertySymbolCoder_new_def split: if_splits)
  from fresh_treeD(1) [OF f l] have "(t ! 0)\<lparr>leafID := 0\<rparr> = t ! 0" by simp
  then have "t[0 := (t ! 0)\<lparr>leafID := 0\<rparr>] = t" by simp
  with new l show "inner_node st = t" "leaf_node st = [chances0]"
    "nb_properties st = length range'"
    by (auto simp: FinalPropertySymbolCoder_new_def)
qed

lemma fresh_tree_leafIDs_valid: "fresh_tree nb t \<Longrightarrow> leafIDs_valid t [x]"
  by (simp add: fresh_tree_def leafIDs_valid_def)

text \<open>
  Claim C8. A tree that \<open>read_tree\<close> has decoded with success, taken over by the
  constructor of \<open>FinalPropertySymbolCoder\<close>, is well-formed: the children of every node
  with \<open>property \<noteq> -1\<close> exist, and every \<open>leafID\<close> is an index of the leaf store. And a
  call of \<open>find_leaf\<close> that starts from a well-formed state leaves a well-formed state,
  and returns a leaf of the leaf store.
\<close>

theorem tree_well_formed:
  "(read_tree coder_read_int min_count max_count fuel range' c tree0
        = Some (Inr (True, visits, subrange, tree, c'))
      \<and> FinalPropertySymbolCoder_new chances0 racIn range' tree = Inr st
     \<longrightarrow> children_exist (inner_node st) \<and> leafIDs_valid (inner_node st) (leaf_node st))
   \<and> (children_exist (inner_node st1) \<and> leafIDs_valid (inner_node st1) (leaf_node st1)
      \<and> find_leaf st1 properties = Some (Inr (leaf, st2))
     \<longrightarrow> children_exist (inner_node st2) \<and> leafIDs_valid (inner_node st2) (leaf_node st2)
         \<and> leaf < length (leaf_node st2))"
proof (intro conjI impI)
  assume a: "read_tree coder_read_int min_count max_count fuel range' c tree0
        = Some (Inr (True, visits, subrange, tree, c'))
      \<and> FinalPropertySymbolCoder_new chances0 racIn range' tree = Inr st"
  then have run: "read_tree coder_read_int min_count max_count fuel range' c tree0
        = Some (Inr (True, visits, subrange, tree, c'))" by simp
  have f: "fresh_tree (length range') tree" using run by (rule read_tree_fresh(1))
  from a have new: "FinalPropertySymbolCoder_new chances0 racIn range' tree = Inr st" by simp
  note st = coder_new_fresh [OF f new]
  show "children_exist (inner_node st)" using f by (simp add: st fresh_tree_def)
  show "leafIDs_valid (inner_node st) (leaf_node st)"
    using f by (simp add: st fresh_tree_leafIDs_valid)
next
  assume b: "children_exist (inner_node st1) \<and> leafIDs_valid (inner_node st1) (leaf_node st1)
      \<and> find_leaf st1 properties = Some (Inr (leaf, st2))"
  then obtain ls t where run: "find_leaf_loop properties (leaf_node st1) (inner_node st1) 0
      = Some (Inr (leaf, ls, t))" and st2: "st2 = st1\<lparr>leaf_node := ls, inner_node := t\<rparr>"
    by (auto simp: find_leaf_def split: option.splits sum.splits)
  from b have ce: "children_exist (inner_node st1)"
    and lv: "leafIDs_valid (inner_node st1) (leaf_node st1)" by simp_all
  from find_leaf_loop_preserves [OF run ce lv]
  show "children_exist (inner_node st2)" "leafIDs_valid (inner_node st2) (leaf_node st2)"
    "leaf < length (leaf_node st2)"
    by (simp_all add: st2)
qed

text \<open>
  Moreover such a tree has valid properties and children behind their parents; these two
  properties are kept by \<open>find_leaf\<close> as well, and with them every call of \<open>find_leaf\<close>
  on a properties vector of the right length returns a leaf.
\<close>

lemma find_leaf_returns:
  assumes "children_exist (inner_node st)" "children_after (inner_node st)"
    "properties_valid (length properties) (inner_node st)"
    "leafIDs_valid (inner_node st) (leaf_node st)" "0 < length (inner_node st)"
  shows "\<exists>leaf st'. find_leaf st properties = Some (Inr (leaf, st'))
           \<and> children_exist (inner_node st') \<and> children_after (inner_node st')
           \<and> properties_valid (length properties) (inner_node st')
           \<and> leafIDs_valid (inner_node st') (leaf_node st') \<and> 0 < length (inner_node st')"
proof -
  from find_leaf_loop_total [OF assms(1-4), of 0] assms(5)
  obtain leaf ls t where run: "find_leaf_loop properties (leaf_node st) (inner_node st) 0
      = Some (Inr (leaf, ls, t))" by auto
  note p = find_leaf_loop_preserves [OF run assms(1,4)]
  have ca: "children_after t"
    using assms(2) p unfolding children_after_def by simp
  have pv: "properties_valid (length properties) t"
    using assms(3) p unfolding properties_valid_def by simp
  have fl: "find_leaf st properties
      = Some (Inr (leaf, st\<lparr>leaf_node := ls, inner_node := t\<rparr>))"
    by (simp add: find_leaf_def run)
  have "length t = length (inner_node st)" using p by simp
  then have len: "0 < length t" using assms(5) by metis
  let ?st = "st\<lparr>leaf_node := ls, inner_node := t\<rparr>"
  show ?thesis
  proof (intro exI conjI)
    show "find_leaf st properties = Some (Inr (leaf, ?st))" by (rule fl)
    show "children_exist (inner_node ?st)" using p by simp
    show "children_after (inner_node ?st)" using ca by simp
    show "properties_valid (length properties) (inner_node ?st)" using pv by simp
    show "leafIDs_valid (inner_node ?st) (leaf_node ?st)" using p by simp
    show "0 < length (inner_node ?st)" using len by simp
  qed
qed

lemma read_tree_routable:
  assumes "read_tree rd mc xc fuel range' c tree0 = Some (Inr (True, vs, sr, t, c'))"
    and "FinalPropertySymbolCoder_new chances0 racIn range' t = Inr st"
  shows "children_exist (inner_node st)" "children_after (inner_node st)"
    "properties_valid (nb_properties st) (inner_node st)"
    "leafIDs_valid (inner_node st) (leaf_node st)" "0 < length (inner_node st)"
proof -
  note f = read_tree_fresh [OF assms(1)]
  note st = coder_new_fresh [OF f(1) assms(2)]
  from f show "children_exist (inner_node st)" "children_after (inner_node st)"
    "properties_valid (nb_properties st) (inner_node st)"
    "leafIDs_valid (inner_node st) (leaf_node st)" "0 < length (inner_node st)"
    by (simp_all add: st fresh_tree_leafIDs_valid) (simp_all add: fresh_tree_def)
qed

lemma read_tree_example:
  "read_tree replay 1 512 (Suc (Suc (Suc 0))) [(0, 255), (0, 255), (0, 255)] [2, 1, 128, 0, 0]
      Tree_new
    = Some (Inr (True, [Inner_visit 0 1 0 255 1, Leaf_visit 1, Leaf_visit 2],
                 [(0, 255), (0, 255), (0, 255)], single_split 1, []))"
  by (simp add: read_tree_def read_subtree.simps Let_def int8_t_def int16_t_def
        single_split_def PropertyDecisionNode_default_def)

lemma coder_new_example:
  "FinalPropertySymbolCoder_new (7 :: nat) () [(0, 255), (0, 255), (0, 255)] (single_split k)
    = Inr \<lparr>rac = (), nb_properties = 3, leaf_node = [7], inner_node = single_split k\<rparr>"
  by (simp add: FinalPropertySymbolCoder_new_def single_split_def)

lemma find_leaf_example_count:
  "find_leaf \<lparr>rac = (), nb_properties = 3, leaf_node = [7 :: nat], inner_node = single_split 1\<rparr>
      [0, 200, 0]
    = Some (Inr (0, \<lparr>rac = (), nb_properties = 3, leaf_node = [7], inner_node = single_split 0\<rparr>))"
proof -
  have "find_leaf_loop [0, 200, 0] [7 :: nat] (single_split 1) 0
      = Some (Inr (0, [7], single_split 0))"
    by (subst find_leaf_loop_count) (simp_all add: single_split_def)
  then show ?thesis by (simp add: find_leaf_def)
qed

lemma find_leaf_example_split:
  "find_leaf \<lparr>rac = (), nb_properties = 3, leaf_node = [7 :: nat], inner_node = single_split 0\<rparr>
      [0, 200, 0]
    = Some (Inr (0, \<lparr>rac = (), nb_properties = 3, leaf_node = [7, 7],
                     inner_node = [\<lparr>property = 1, count = - 1, splitval = 128, childID = 1,
                                     leafID = 0\<rparr>,
                                   PropertyDecisionNode_default,
                                   PropertyDecisionNode_default\<lparr>leafID := 1\<rparr>]\<rparr>))"
proof -
  have "find_leaf_loop [0, 200, 0] [7 :: nat] (single_split 0) 0
      = Some (Inr (0, [7, 7], [\<lparr>property = 1, count = - 1, splitval = 128, childID = 1,
                                     leafID = 0\<rparr>,
                                   PropertyDecisionNode_default,
                                   PropertyDecisionNode_default\<lparr>leafID := 1\<rparr>]))"
    by (subst find_leaf_loop_split)
       (simp_all add: single_split_def Let_def PropertyDecisionNode_default_def)
  then show ?thesis by (simp add: find_leaf_def)
qed

theorem tree_well_formed_witness:
  "read_tree replay 1 512 (Suc (Suc (Suc 0))) [(0, 255), (0, 255), (0, 255)] [2, 1, 128, 0, 0]
      Tree_new
    = Some (Inr (True, [Inner_visit 0 1 0 255 1, Leaf_visit 1, Leaf_visit 2],
                 [(0, 255), (0, 255), (0, 255)], single_split 1, []))
   \<and> FinalPropertySymbolCoder_new (7 :: nat) () [(0, 255), (0, 255), (0, 255)] (single_split 1)
       = Inr \<lparr>rac = (), nb_properties = 3, leaf_node = [7], inner_node = single_split 1\<rparr>
   \<and> children_exist (single_split 1) \<and> leafIDs_valid (single_split 1) [7 :: nat]
   \<and> find_leaf \<lparr>rac = (), nb_properties = 3, leaf_node = [7 :: nat], inner_node = single_split 1\<rparr>
        [0, 200, 0]
       = Some (Inr (0, \<lparr>rac = (), nb_properties = 3, leaf_node = [7],
                        inner_node = single_split 0\<rparr>))
   \<and> children_exist (single_split 0) \<and> leafIDs_valid (single_split 0) [7 :: nat]
   \<and> (0 :: nat) < length [7 :: nat]"
proof -
  note t = tree_well_formed [where coder_read_int = replay and min_count = 1 and max_count = 512
      and fuel = "Suc (Suc (Suc 0))" and range' = "[(0, 255), (0, 255), (0, 255)]"
      and c = "[2, 1, 128, 0, 0]" and ?tree0.0 = Tree_new
      and visits = "[Inner_visit 0 1 0 255 1, Leaf_visit 1, Leaf_visit 2]"
      and subrange = "[(0, 255), (0, 255), (0, 255)]" and tree = "single_split 1" and c' = "[]"
      and ?chances0.0 = "7 :: nat" and racIn = "()"
      and st = "\<lparr>rac = (), nb_properties = 3, leaf_node = [7 :: nat], inner_node = single_split 1\<rparr>"
      and ?st1.0 = "\<lparr>rac = (), nb_properties = 3, leaf_node = [7 :: nat], inner_node = single_split 1\<rparr>"
      and properties = "[0, 200, 0]" and leaf = 0
      and ?st2.0 = "\<lparr>rac = (), nb_properties = 3, leaf_node = [7 :: nat], inner_node = single_split 0\<rparr>"]
  show ?thesis
    using t read_tree_example coder_new_example [of 1] find_leaf_example_count
    by simp
qed

lemma routing_after_read_int_nbits:
  assumes "length properties = nb_properties st"
  shows "routing_after (read_int_nbits decode_bits st properties nbits)
           = routing_after (find_leaf st properties)"
proof (cases "find_leaf st properties")
  case None
  with assms show ?thesis by (simp add: read_int_nbits_def routing_after_def)
next
  case (Some x)
  show ?thesis
  proof (cases x)
    case (Inl e)
    with Some assms show ?thesis by (simp add: read_int_nbits_def routing_after_def)
  next
    case (Inr r)
    obtain leaf st1 where r: "r = (leaf, st1)" by (cases r)
    obtain val rac1 chances1
      where d: "FinalCompoundSymbolCoder_read_int_nbits decode_bits (rac st1)
                  (leaf_node st1 ! leaf) nbits = (val, rac1, chances1)"
      by (cases "FinalCompoundSymbolCoder_read_int_nbits decode_bits (rac st1)
                  (leaf_node st1 ! leaf) nbits")
    from Some Inr r d assms show ?thesis
      by (simp add: read_int_nbits_def routing_after_def routing_state_def)
  qed
qed

lemma routing_after_read_int:
  assumes "length properties = nb_properties st" "minv \<noteq> maxv"
  shows "routing_after (read_int decode st properties minv maxv)
           = routing_after (find_leaf st properties)"
proof (cases "find_leaf st properties")
  case None
  with assms show ?thesis by (simp add: read_int_def routing_after_def)
next
  case (Some x)
  show ?thesis
  proof (cases x)
    case (Inl e)
    with Some assms show ?thesis by (simp add: read_int_def routing_after_def)
  next
    case (Inr r)
    obtain leaf st1 where r: "r = (leaf, st1)" by (cases r)
    obtain val rac1 chances1
      where d: "FinalCompoundSymbolCoder_read_int decode (rac st1)
                  (leaf_node st1 ! leaf) minv maxv = (val, rac1, chances1)"
      by (cases "FinalCompoundSymbolCoder_read_int decode (rac st1)
                  (leaf_node st1 ! leaf) minv maxv")
    from Some Inr r d assms show ?thesis
      by (simp add: read_int_def routing_after_def routing_state_def)
  qed
qed

text \<open>
  Claim C10. The fixed-width \<open>read_int(properties, nbits)\<close> leaves the routing state,
  that is the tree and the size of the leaf store, as \<open>find_leaf\<close> alone leaves it, for
  every \<open>nbits\<close>; a ranged read with \<open>min \<noteq> max\<close> leaves the same. So at a root that
  is not yet activated the fixed-width read decrements \<open>count\<close> when it is positive, and
  splits when it is 0, which grows the leaf store by one.
\<close>

theorem read_int_nbits_routes:
  assumes "length properties = nb_properties st"
  shows "routing_after (read_int_nbits decode_bits st properties nbits)
           = routing_after (find_leaf st properties)
    \<and> (minv \<noteq> maxv \<longrightarrow>
          routing_after (read_int decode st properties minv maxv)
            = routing_after (read_int_nbits decode_bits st properties nbits))
    \<and> (0 < length (inner_node st) \<and> property (inner_node st ! 0) \<noteq> - 1
          \<and> 0 < count (inner_node st ! 0) \<and> leafID (inner_node st ! 0) < length (leaf_node st)
        \<longrightarrow> routing_after (read_int_nbits decode_bits st properties nbits)
              = Some (Inr ((inner_node st)[0 := (inner_node st ! 0)
                                               \<lparr>count := count (inner_node st ! 0) - 1\<rparr>],
                           length (leaf_node st))))
    \<and> (0 < length (inner_node st) \<and> property (inner_node st ! 0) \<noteq> - 1
          \<and> count (inner_node st ! 0) = 0 \<and> leafID (inner_node st ! 0) < length (leaf_node st)
          \<and> childID (inner_node st ! 0) + 1 < length (inner_node st)
          \<and> 0 \<le> property (inner_node st ! 0)
          \<and> nat (property (inner_node st ! 0)) < length properties
        \<longrightarrow> routing_after (read_int_nbits decode_bits st properties nbits)
              = Some (Inr (split_tree (inner_node st) 0 (length (leaf_node st)),
                           length (leaf_node st) + 1)))"
proof (intro conjI impI)
  note n = routing_after_read_int_nbits [OF assms]
  show "routing_after (read_int_nbits decode_bits st properties nbits)
           = routing_after (find_leaf st properties)"
    by (rule n)
  {
    assume "minv \<noteq> maxv"
    then show "routing_after (read_int decode st properties minv maxv)
            = routing_after (read_int_nbits decode_bits st properties nbits)"
      using routing_after_read_int [OF assms] n by simp
  }
  {
    assume a: "0 < length (inner_node st) \<and> property (inner_node st ! 0) \<noteq> - 1
          \<and> 0 < count (inner_node st ! 0) \<and> leafID (inner_node st ! 0) < length (leaf_node st)"
    then have "find_leaf_loop properties (leaf_node st) (inner_node st) 0
        = Some (Inr (leafID (inner_node st ! 0), leaf_node st,
             (inner_node st)[0 := (inner_node st ! 0)\<lparr>count := count (inner_node st ! 0) - 1\<rparr>]))"
      by (subst find_leaf_loop_count) simp_all
    then show "routing_after (read_int_nbits decode_bits st properties nbits)
              = Some (Inr ((inner_node st)[0 := (inner_node st ! 0)
                                               \<lparr>count := count (inner_node st ! 0) - 1\<rparr>],
                           length (leaf_node st)))"
      unfolding n by (simp add: find_leaf_def routing_after_def routing_state_def)
  }
  {
    assume a: "0 < length (inner_node st) \<and> property (inner_node st ! 0) \<noteq> - 1
          \<and> count (inner_node st ! 0) = 0 \<and> leafID (inner_node st ! 0) < length (leaf_node st)
          \<and> childID (inner_node st ! 0) + 1 < length (inner_node st)
          \<and> 0 \<le> property (inner_node st ! 0)
          \<and> nat (property (inner_node st ! 0)) < length properties"
    then have "find_leaf_loop properties (leaf_node st) (inner_node st) 0
        = Some (Inr (if properties ! nat (property (inner_node st ! 0))
                          > splitval (inner_node st ! 0)
                     then leafID (inner_node st ! 0) else length (leaf_node st),
                     leaf_node st @ [leaf_node st ! leafID (inner_node st ! 0)],
                     split_tree (inner_node st) 0 (length (leaf_node st))))"
      by (intro find_leaf_loop_split') simp_all
    then show "routing_after (read_int_nbits decode_bits st properties nbits)
              = Some (Inr (split_tree (inner_node st) 0 (length (leaf_node st)),
                           length (leaf_node st) + 1))"
      unfolding n by (simp add: find_leaf_def routing_after_def routing_state_def)
  }
qed

theorem read_int_nbits_routes_witness:
  "routing_after (read_int_nbits (\<lambda>bitCoder n. (0, bitCoder))
       \<lparr>rac = (), nb_properties = 3, leaf_node = [7 :: nat], inner_node = single_split 1\<rparr>
       [0, 200, 0] 0)
     = Some (Inr (single_split 0, 1))
   \<and> routing_after (read_int (\<lambda>bitCoder lo hi. (lo, bitCoder))
       \<lparr>rac = (), nb_properties = 3, leaf_node = [7 :: nat], inner_node = single_split 1\<rparr>
       [0, 200, 0] 0 9)
     = Some (Inr (single_split 0, 1))
   \<and> routing_after (read_int_nbits (\<lambda>bitCoder n. (0, bitCoder))
       \<lparr>rac = (), nb_properties = 3, leaf_node = [7 :: nat], inner_node = single_split 0\<rparr>
       [0, 200, 0] 0)
     = Some (Inr (split_tree (single_split 0) 0 1, 2))"
proof -
  have l: "length [0, 200, 0 :: int]
      = nb_properties \<lparr>rac = (), nb_properties = 3, leaf_node = [7 :: nat],
                        inner_node = single_split k\<rparr>" for k
    by simp
  have root: "property (single_split k ! 0) = 1" "count (single_split k ! 0) = k"
    "childID (single_split k ! 0) = 1" "leafID (single_split k ! 0) = 0"
    "length (single_split k) = 3" for k
    by (simp_all add: single_split_def)
  have dec: "(single_split 1)[0 := (single_split 1 ! 0)\<lparr>count := 0\<rparr>] = single_split 0"
    by (simp add: single_split_def)
  note t1 = read_int_nbits_routes [OF l [of 1], where decode_bits = "\<lambda>bitCoder n. (0, bitCoder)"
      and nbits = 0 and decode = "\<lambda>bitCoder lo hi. (lo, bitCoder)" and minv = 0 and maxv = 9]
  note t0 = read_int_nbits_routes [OF l [of 0], where decode_bits = "\<lambda>bitCoder n. (0, bitCoder)"
      and nbits = 0 and decode = "\<lambda>bitCoder lo hi. (lo, bitCoder)" and minv = 0 and maxv = 9]
  from t1 [THEN conjunct2, THEN conjunct2, THEN conjunct1] have a: "routing_after (read_int_nbits (\<lambda>bitCoder n. (0, bitCoder))
       \<lparr>rac = (), nb_properties = 3, leaf_node = [7 :: nat], inner_node = single_split 1\<rparr>
       [0, 200, 0] 0)
     = Some (Inr (single_split 0, 1))"
    by (simp add: root dec)
  from t1 [THEN conjunct2, THEN conjunct1] a have b: "routing_after (read_int (\<lambda>bitCoder lo hi. (lo, bitCoder))
       \<lparr>rac = (), nb_properties = 3, leaf_node = [7 :: nat], inner_node = single_split 1\<rparr>
       [0, 200, 0] 0 9)
     = Some (Inr (single_split 0, 1))"
    by simp
  from t0 [THEN conjunct2, THEN conjunct2, THEN conjunct2] have c: "routing_after (read_int_nbits (\<lambda>bitCoder n. (0, bitCoder))
       \<lparr>rac = (), nb_properties = 3, leaf_node = [7 :: nat], inner_node = single_split 0\<rparr>
       [0, 200, 0] 0)
     = Some (Inr (split_tree (single_split 0) 0 1, 2))"
    by (simp add: root)
  from a b c show ?thesis by simp
qed

end
